theory Spec2Isabelle
  imports Main "HOL-Library.AList" "HOL-Library.Multiset"
begin

section \<open>Strings as the review agent uses them\<close>

text \<open>
  A JavaScript string is modelled as a \<^typ>\<open>string\<close> (a list of 8-bit characters).
  Case folding and the white space test cover the ASCII range: a character outside
  ASCII is taken to be caseless and not white space.
\<close>

definition upperCaseLetters :: string where
  "upperCaseLetters = ''ABCDEFGHIJKLMNOPQRSTUVWXYZ''"

definition lowerCaseLetters :: string where
  "lowerCaseLetters = ''abcdefghijklmnopqrstuvwxyz''"

definition toLowerCaseChar :: "char \<Rightarrow> char" where
  "toLowerCaseChar c =
     (case map_of (zip upperCaseLetters lowerCaseLetters) c of None \<Rightarrow> c | Some d \<Rightarrow> d)"

text \<open>\<^verbatim>\<open>String.prototype.toLowerCase\<close>.\<close>

definition toLowerCase :: "string \<Rightarrow> string" where
  "toLowerCase s = map toLowerCaseChar s"

text \<open>
  \<^verbatim>\<open>s.split(c)\<close> for a separator of one character: the pieces between the
  separators, in order. The result is never empty: \<^verbatim>\<open>"".split(c)\<close> is \<^verbatim>\<open>[""]\<close>.
\<close>

fun js_split :: "char \<Rightarrow> string \<Rightarrow> string list" where
  "js_split c [] = [[]]"
| "js_split c (x # xs) =
     (if x = c then [] # js_split c xs
      else (case js_split c xs of [] \<Rightarrow> [[x]] | l # ls \<Rightarrow> (x # l) # ls))"

text \<open>\<^verbatim>\<open>xs.join(sep)\<close>.\<close>

fun js_join :: "string \<Rightarrow> string list \<Rightarrow> string" where
  "js_join sep [] = []"
| "js_join sep [x] = x"
| "js_join sep (x # y # ys) = x @ sep @ js_join sep (y # ys)"

text \<open>\<^verbatim>\<open>xs.pop()\<close>, read for its value: the last element, or undefined on an empty array.\<close>

definition pop :: "'a list \<Rightarrow> 'a option" where
  "pop xs = (if xs = [] then None else Some (last xs))"

text \<open>\<^verbatim>\<open>s.startsWith(p)\<close>.\<close>

definition startsWith :: "string \<Rightarrow> string \<Rightarrow> bool" where
  "startsWith s p = (take (length p) s = p)"

definition newline :: char where
  "newline = CHR 0x0A"

text \<open>White space as \<^verbatim>\<open>trim\<close> and the regular expression class \<^verbatim>\<open>\s\<close> see it (ASCII).\<close>

definition isWhiteSpace :: "char \<Rightarrow> bool" where
  "isWhiteSpace c = (c \<in> set [CHR 0x09, CHR 0x0A, CHR 0x0B, CHR 0x0C, CHR 0x0D, CHR 0x20])"

text \<open>\<^verbatim>\<open>String.prototype.trim\<close>.\<close>

definition trim :: "string \<Rightarrow> string" where
  "trim s = rev (dropWhile isWhiteSpace (rev (dropWhile isWhiteSpace s)))"

text \<open>
  \<^verbatim>\<open>xs.slice(start, end)\<close> for integer arguments: a negative index counts from the
  end, both are clamped to the array, and an empty range gives the empty array.
\<close>

definition js_slice :: "int \<Rightarrow> int \<Rightarrow> 'a list \<Rightarrow> 'a list" where
  "js_slice start fin xs =
     (let len = int (length xs);
          k = (if start < 0 then max (len + start) 0 else min start len);
          final = (if fin < 0 then max (len + fin) 0 else min fin len)
      in take (nat (final - k)) (drop (nat k) xs))"

section \<open>Data model\<close>

text \<open>
  \<^verbatim>\<open>PRFile\<close>: the fields of a changed file that the code reads or writes.
  \<^verbatim>\<open>old_contents\<close> and \<^verbatim>\<open>current_contents\<close> are null when the file does not exist
  on that branch. \<^verbatim>\<open>patchTokenLength\<close> is the cache that \<^verbatim>\<open>reviewChanges\<close> assigns
  for every file before the packer reads it.
\<close>

record PRFile =
  filename :: string
  patch :: string
  old_contents :: "string option"
  current_contents :: "string option"
  patchTokenLength :: nat

section \<open>The file filter\<close>

definition extensionsToIgnore :: "string list" where
  "extensionsToIgnore =
     [''pdf'', ''png'', ''jpg'', ''jpeg'', ''gif'', ''mp4'', ''mp3'', ''md'', ''json'',
      ''env'', ''toml'', ''svg'', ''ipynb'', ''wasm'']"

definition filesToIgnore :: "string list" where
  "filesToIgnore =
     [''package-lock.json'', ''yarn.lock'', ''.gitignore'', ''package.json'',
      ''tsconfig.json'', ''poetry.lock'', ''readme.md'', ''packages.txt'', ''utils.py'',
      ''requirements.txt'', ''tumor-classify.ipynb'', ''tree-sitter-python.wasm'']"

text \<open>
  \<^verbatim>\<open>filterFile\<close>, in the order of its three early returns. A guard
  \<^verbatim>\<open>x && set.has(x)\<close> is false for the empty string and for undefined.
\<close>

definition filterFile :: "PRFile \<Rightarrow> bool" where
  "filterFile file =
     (let name = pop (js_split CHR ''/'' (toLowerCase (filename file))) in
      if (case name of None \<Rightarrow> False | Some n \<Rightarrow> n \<noteq> [] \<and> n \<in> set filesToIgnore) then False
      else
        let splitFilename = js_split CHR ''.'' (toLowerCase (filename file)) in
        if length splitFilename \<le> 1 then False
        else
          let extension = map_option toLowerCase (pop splitFilename) in
          if (case extension of None \<Rightarrow> False
              | Some e \<Rightarrow> e \<noteq> [] \<and> e \<in> set extensionsToIgnore) then False
          else True)"

subsection \<open>The filter read off the whole path\<close>

text \<open>
  What \<^verbatim>\<open>filterFile\<close> tests, in terms of lists: the name is taken after the last
  \<^verbatim>\<open>/\<close>, but the dot and the extension are looked for in the whole path.
\<close>

text \<open>The text of a name after its last \<^verbatim>\<open>/\<close>: the name with its path stripped.\<close>

definition pathStripped :: "string \<Rightarrow> string" where
  "pathStripped s = rev (takeWhile (\<lambda>c. c \<noteq> CHR ''/'') (rev s))"

text \<open>The extension: the text after the last dot.\<close>

definition extensionOf :: "string \<Rightarrow> string" where
  "extensionOf s = rev (takeWhile (\<lambda>c. c \<noteq> CHR ''.'') (rev s))"

text \<open>No extension: no dot occurs.\<close>

definition hasNoExtension :: "string \<Rightarrow> bool" where
  "hasNoExtension s = (CHR ''.'' \<notin> set s)"

definition rejectedOnWholePath :: "PRFile \<Rightarrow> bool" where
  "rejectedOnWholePath file =
     (pathStripped (toLowerCase (filename file)) \<in> set filesToIgnore
      \<or> extensionOf (toLowerCase (filename file)) \<in> set extensionsToIgnore
      \<or> hasNoExtension (filename file))"

subsection \<open>The filter as the specification words it\<close>

text \<open>
  The specification reads the three tests off the name of the file with its path
  stripped: the name is on the list of names, or the name has no extension (no dot
  occurs in it), or its extension (the text after its last dot) is on the list of
  extensions.
\<close>

definition rejectedBySpec :: "PRFile \<Rightarrow> bool" where
  "rejectedBySpec file =
     (let name = pathStripped (toLowerCase (filename file)) in
      name \<in> set filesToIgnore
      \<or> hasNoExtension name
      \<or> extensionOf name \<in> set extensionsToIgnore)"

text \<open>
  A file whose name has no dot but whose directory path has one, such as
  \<^verbatim>\<open>.github/README\<close>.
\<close>

definition dotOnlyInDirectory :: "string \<Rightarrow> bool" where
  "dotOnlyInDirectory s = (CHR ''.'' \<in> set s \<and> CHR ''.'' \<notin> set (pathStripped s))"

section \<open>Stripping removed lines\<close>

text \<open>
  \<^verbatim>\<open>stripRemovedLines\<close>. The template \<^verbatim>\<open>String.raw`${originalFile.patch}`\<close> is the
  patch string itself; every other field is copied.
\<close>

definition stripRemovedLines :: "PRFile \<Rightarrow> PRFile" where
  "stripRemovedLines originalFile =
     (let originalPatch = patch originalFile;
          strippedPatch =
            js_join [newline]
              (filter (\<lambda>line. \<not> startsWith line ''-'') (js_split newline originalPatch))
      in originalFile\<lparr>patch := strippedPatch\<rparr>)"

text \<open>The lines of a patch that do not begin with the removal marker, in their order.\<close>

definition keptLines :: "string \<Rightarrow> string list" where
  "keptLines p = filter (\<lambda>line. \<not> startsWith line ''-'') (js_split newline p)"

section \<open>Collaborators of the packer\<close>

text \<open>
  \<^verbatim>\<open>ChatCompletionMessageParam\<close>: one role-tagged turn of a conversation.
\<close>

record ChatCompletionMessageParam =
  role :: string
  content :: string

text \<open>
  The functions that the source imports from the module \<^verbatim>\<open>./prompts\<close>, whose own
  source is not available. They are parameters of the model: every
  function below takes them as the record \<open>P\<close>, and the theorems hold for every choice
  of them.
\<close>

record prompts =
  buildPatchPrompt :: "PRFile \<Rightarrow> string"
  constructPrompt ::
    "PRFile list \<Rightarrow> (PRFile \<Rightarrow> string) \<Rightarrow> (string \<Rightarrow> ChatCompletionMessageParam list)
       \<Rightarrow> ChatCompletionMessageParam list"
  getTokenLength :: "string \<Rightarrow> nat"
  isConversationWithinLimit :: "ChatCompletionMessageParam list \<Rightarrow> bool"

text \<open>
  The probe that the packer repeats before every decision:
  \<^verbatim>\<open>isConversationWithinLimit(await constructPrompt(files, patchBuilder, convoBuilder))\<close>.
\<close>

definition promptWithinLimit ::
  "prompts \<Rightarrow> (PRFile \<Rightarrow> string) \<Rightarrow> (string \<Rightarrow> ChatCompletionMessageParam list)
     \<Rightarrow> PRFile list \<Rightarrow> bool" where
  "promptWithinLimit P patchBuilder convoBuilder files =
     isConversationWithinLimit P (constructPrompt P files patchBuilder convoBuilder)"

section \<open>The prompt packer\<close>

text \<open>
  \<^verbatim>\<open>groupFilesByExtension\<close>. A JavaScript \<^verbatim>\<open>Map\<close> keeps its keys in the order of
  their first insertion, so it is an association list; \<^verbatim>\<open>push\<close> appends to the
  bucket in place. \<open>bucketFile\<close> is the body of the \<^verbatim>\<open>forEach\<close>: a file whose
  extension is the empty string fails the guard \<^verbatim>\<open>if (extension)\<close> and is put in no
  bucket.
\<close>

definition addToBucket ::
  "string \<Rightarrow> PRFile \<Rightarrow> (string \<times> PRFile list) list \<Rightarrow> (string \<times> PRFile list) list" where
  "addToBucket extension file filesByExtension =
     (case map_of filesByExtension extension of
        None \<Rightarrow> filesByExtension @ [(extension, [file])]
      | Some bucket \<Rightarrow> AList.update extension (bucket @ [file]) filesByExtension)"

definition bucketFile ::
  "(string \<times> PRFile list) list \<Rightarrow> PRFile \<Rightarrow> (string \<times> PRFile list) list" where
  "bucketFile filesByExtension file =
     (case map_option toLowerCase (pop (js_split CHR ''.'' (filename file))) of
        None \<Rightarrow> filesByExtension
      | Some extension \<Rightarrow>
          if extension \<noteq> [] then addToBucket extension file filesByExtension
          else filesByExtension)"

definition groupFilesByExtension :: "PRFile list \<Rightarrow> (string \<times> PRFile list) list" where
  "groupFilesByExtension files = foldl bucketFile [] files"

text \<open>
  The inner loop of \<^verbatim>\<open>processWithinLimitFiles\<close> over the sorted bucket, with the two
  variables it updates: \<^verbatim>\<open>currentGroup\<close> and \<^verbatim>\<open>processGroups\<close>.
\<close>

fun greedyLoop ::
  "(PRFile list \<Rightarrow> bool) \<Rightarrow> PRFile list \<Rightarrow> PRFile list \<Rightarrow> PRFile list list
     \<Rightarrow> PRFile list \<times> PRFile list list" where
  "greedyLoop withinLimit [] currentGroup processGroups = (currentGroup, processGroups)"
| "greedyLoop withinLimit (file # rest) currentGroup processGroups =
     (if withinLimit (currentGroup @ [file])
      then greedyLoop withinLimit rest (currentGroup @ [file]) processGroups
      else greedyLoop withinLimit rest [file]
             (if currentGroup \<noteq> [] then processGroups @ [currentGroup] else processGroups))"

text \<open>
  The body of the loop over the extension buckets. \<^verbatim>\<open>Array.prototype.sort\<close> is
  stable, and so is \<^const>\<open>sort_key\<close>: files of equal \<^verbatim>\<open>patchTokenLength\<close> keep their
  order.
\<close>

definition processExtension ::
  "(PRFile list \<Rightarrow> bool) \<Rightarrow> PRFile list list \<Rightarrow> PRFile list \<Rightarrow> PRFile list list" where
  "processExtension withinLimit processGroups filesForExt =
     (if withinLimit filesForExt then processGroups @ [filesForExt]
      else
        (case greedyLoop withinLimit (sort_key patchTokenLength filesForExt) [] processGroups of
           (currentGroup, processGroups') \<Rightarrow>
             if currentGroup \<noteq> [] then processGroups' @ [currentGroup] else processGroups'))"

text \<open>
  The greedy accumulation as the specification words it: files are added to the running
  group while the probe with the next file succeeds; at the first failure the running
  group, if it is not empty, is closed and the failing file seeds the next group.
\<close>

fun greedyGroups :: "(PRFile list \<Rightarrow> bool) \<Rightarrow> PRFile list \<Rightarrow> PRFile list \<Rightarrow> PRFile list list" where
  "greedyGroups withinLimit currentGroup [] = (if currentGroup = [] then [] else [currentGroup])"
| "greedyGroups withinLimit currentGroup (file # rest) =
     (if withinLimit (currentGroup @ [file])
      then greedyGroups withinLimit (currentGroup @ [file]) rest
      else (if currentGroup = [] then [] else [currentGroup])
             @ greedyGroups withinLimit [file] rest)"

definition processWithinLimitFiles ::
  "prompts \<Rightarrow> PRFile list \<Rightarrow> (PRFile \<Rightarrow> string) \<Rightarrow> (string \<Rightarrow> ChatCompletionMessageParam list)
     \<Rightarrow> PRFile list list" where
  "processWithinLimitFiles P files patchBuilder convoBuilder =
     (if \<not> promptWithinLimit P patchBuilder convoBuilder files
      then foldl (\<lambda>processGroups (extension, filesForExt).
                    processExtension (promptWithinLimit P patchBuilder convoBuilder)
                      processGroups filesForExt)
             [] (groupFilesByExtension files)
      else [files])"

definition processOutsideLimitFiles ::
  "prompts \<Rightarrow> PRFile list \<Rightarrow> (PRFile \<Rightarrow> string) \<Rightarrow> (string \<Rightarrow> ChatCompletionMessageParam list)
     \<Rightarrow> PRFile list list" where
  "processOutsideLimitFiles P files patchBuilder convoBuilder =
     (if files = [] then []
      else
        let files' = map stripRemovedLines files in
        if promptWithinLimit P patchBuilder convoBuilder files' then [files']
        else
          let withinLimits =
                filter (\<lambda>file. promptWithinLimit P patchBuilder convoBuilder [file]) files'
          in processWithinLimitFiles P withinLimits patchBuilder convoBuilder)"

text \<open>
  The first half of \<^verbatim>\<open>reviewChanges\<close>, up to the local variable \<^verbatim>\<open>groups\<close>: the
  filter, the assignment of \<^verbatim>\<open>patchTokenLength\<close> on every filtered file, the split by
  the single-file probe, and the two packer calls.
\<close>

definition cacheTokenLength :: "prompts \<Rightarrow> PRFile \<Rightarrow> PRFile" where
  "cacheTokenLength P file =
     file\<lparr>patchTokenLength := getTokenLength P (buildPatchPrompt P file)\<rparr>"

definition reviewChanges_groups ::
  "prompts \<Rightarrow> PRFile list \<Rightarrow> (string \<Rightarrow> ChatCompletionMessageParam list) \<Rightarrow> PRFile list list" where
  "reviewChanges_groups P files convoBuilder =
     (let patchBuilder = buildPatchPrompt P;
          filteredFiles = map (cacheTokenLength P) (filter filterFile files);
          patchesWithinModelLimit =
            filter (\<lambda>file. promptWithinLimit P patchBuilder convoBuilder [file]) filteredFiles;
          patchesOutsideModelLimit =
            filter (\<lambda>file. \<not> promptWithinLimit P patchBuilder convoBuilder [file]) filteredFiles;
          withinLimitsPatchGroups =
            processWithinLimitFiles P patchesWithinModelLimit patchBuilder convoBuilder;
          exceedingLimitsPatchGroups =
            processOutsideLimitFiles P patchesOutsideModelLimit patchBuilder convoBuilder
      in withinLimitsPatchGroups @ exceedingLimitsPatchGroups)"

text \<open>
  A file that \<^verbatim>\<open>groupFilesByExtension\<close> puts in a bucket: the text after the last dot
  of its name is not empty.
\<close>

definition inBucket :: "PRFile \<Rightarrow> bool" where
  "inBucket f = (extensionOf (filename f) \<noteq> [])"

text \<open>
  A file that \<^verbatim>\<open>processOutsideLimitFiles\<close> drops as permanently oversized: it does
  not fit alone, the stripped files that do not fit alone do not fit together, and the
  file does not fit alone after stripping.
\<close>

definition droppedAsOversized ::
  "prompts \<Rightarrow> (string \<Rightarrow> ChatCompletionMessageParam list) \<Rightarrow> PRFile list \<Rightarrow> PRFile \<Rightarrow> bool" where
  "droppedAsOversized P cb filteredFiles f =
     (let w = promptWithinLimit P (buildPatchPrompt P) cb;
          outside = filter (\<lambda>g. \<not> w [g]) filteredFiles
      in \<not> w [f] \<and> \<not> w (map stripRemovedLines outside) \<and> \<not> w [stripRemovedLines f])"

subsection \<open>A concrete instance of the collaborators\<close>

text \<open>
  Modelled from the spec: the source of the module \<^verbatim>\<open>./prompts\<close> is not available.
  This instance is used only to run the packer on concrete inputs. The patch of a file
  is rendered as its diff text, a token is one character, the conversation of a group is
  the conversation builder applied to the rendered patches joined by line breaks (as
  \<^verbatim>\<open>reviewFiles\<close> builds it), and a conversation is within the limit when the
  characters of its turns do not exceed the budget.
\<close>

definition examplePrompts :: "nat \<Rightarrow> prompts" where
  "examplePrompts budget =
     \<lparr>buildPatchPrompt = patch,
      constructPrompt = (\<lambda>files patchBuilder convoBuilder.
         convoBuilder (js_join [newline] (map patchBuilder files))),
      getTokenLength = length,
      isConversationWithinLimit = (\<lambda>messages.
         sum_list (map (\<lambda>m. length (content m)) messages) \<le> budget)\<rparr>"

text \<open>A conversation builder with seven characters of fixed scaffolding.\<close>

definition exampleConvoBuilder :: "string \<Rightarrow> ChatCompletionMessageParam list" where
  "exampleConvoBuilder diff =
     [\<lparr>role = ''system'', content = ''Review:''\<rparr>, \<lparr>role = ''user'', content = diff\<rparr>]"

definition exampleFile :: "string \<Rightarrow> string \<Rightarrow> PRFile" where
  "exampleFile name diff =
     \<lparr>filename = name, patch = diff, old_contents = None, current_contents = None,
      patchTokenLength = length diff\<rparr>"

text \<open>
  Three files of one extension with patches of 5, 5 and 10 tokens. With a budget of 18
  the scaffolding and the two short patches fit together (7 + 5 + 1 + 5), the long patch
  fits alone (7 + 10), and no group with the long patch and another file fits.
\<close>

definition tsA :: PRFile where "tsA = exampleFile ''a.ts'' ''+aaaa''"

definition tsB :: PRFile where "tsB = exampleFile ''b.ts'' ''+bbbb''"

definition tsC :: PRFile where "tsC = exampleFile ''c.ts'' ''+ccccccccc''"

text \<open>
  Two files with patches of 5 tokens each, the first with a name that ends in a dot.
  With a budget of 12 each fits alone (7 + 5) and the two do not fit together.
\<close>

definition notesFile :: PRFile where "notesFile = exampleFile ''notes.'' ''+aaaa''"

definition mainFile :: PRFile where "mainFile = exampleFile ''main.ts'' ''+bbbb''"

text \<open>
  Three files of one extension whose patches hold removed lines. Their patches have 17,
  14 and 17 tokens, so with a budget of 18 none fits alone (7 + 14 exceeds it); stripped
  of the removed lines the patches have 5, 9 and 3 tokens, each fits alone and the three
  do not fit together.
\<close>

definition pTs :: PRFile where "pTs = exampleFile ''p.ts'' ''+pppp\<newline>-pppppppppp''"

definition qTs :: PRFile where "qTs = exampleFile ''q.ts'' ''+qqqqqqqq\<newline>-qqq''"

definition rTs :: PRFile where "rTs = exampleFile ''r.ts'' ''+rr\<newline>-rrrrrrrrrrrr''"

section \<open>Suggestions and the response reconciler\<close>

text \<open>
  An exception of the source is a value of \<open>error\<close>; a call that can throw or reject
  returns \<open>error + 'a\<close>, with \<open>Inl\<close> for the exception.
\<close>

datatype error = Error string | TypeError string | SyntaxError string

text \<open>
  \<^verbatim>\<open>PRSuggestion\<close>. The source's field names \<^verbatim>\<open>type\<close> and \<^verbatim>\<open>filename\<close> are written
  \<open>suggestionType\<close> and \<open>suggestionFilename\<close> here.
\<close>

record PRSuggestion =
  describe :: string
  suggestionType :: string
  comment :: string
  code :: string
  suggestionFilename :: string

text \<open>
  Modelled from the spec: the source of the method \<^verbatim>\<open>identity\<close> of
  \<^verbatim>\<open>PRSuggestionImpl\<close> is not available. The specification says that the identity of
  a suggestion is a derived value combining filename, comment and code; how they are
  combined is the parameter \<open>combine\<close>.
\<close>

definition identity :: "(string \<Rightarrow> string \<Rightarrow> string \<Rightarrow> 'k) \<Rightarrow> PRSuggestion \<Rightarrow> 'k" where
  "identity combine suggestion =
     combine (suggestionFilename suggestion) (comment suggestion) (code suggestion)"

text \<open>
  \<^verbatim>\<open>dedupSuggestions\<close>. \<^verbatim>\<open>Map.prototype.set\<close> on a key that is present replaces the
  value and keeps the key's position; on a new key it appends. \<^const>\<open>AList.update\<close> does
  the same on an association list, and \<^verbatim>\<open>values()\<close> lists the values in key order.
\<close>

definition dedupSuggestions :: "(PRSuggestion \<Rightarrow> 'k) \<Rightarrow> PRSuggestion list \<Rightarrow> PRSuggestion list" where
  "dedupSuggestions ident suggestions =
     map snd
       (foldl (\<lambda>suggestionsMap suggestion.
                 AList.update (ident suggestion) suggestion suggestionsMap)
          [] suggestions)"

text \<open>
  The map that the loop of \<^verbatim>\<open>dedupSuggestions\<close> builds, started from a given map, and
  the property that the loop keeps: the keys are distinct and each is the identity of
  its value.
\<close>

definition suggestionsMap ::
  "(PRSuggestion \<Rightarrow> 'k) \<Rightarrow> ('k \<times> PRSuggestion) list \<Rightarrow> PRSuggestion list
     \<Rightarrow> ('k \<times> PRSuggestion) list" where
  "suggestionsMap ident m suggestions =
     foldl (\<lambda>suggestionsMap suggestion.
              AList.update (ident suggestion) suggestion suggestionsMap)
       m suggestions"

definition keyed :: "(PRSuggestion \<Rightarrow> 'k) \<Rightarrow> ('k \<times> PRSuggestion) list \<Rightarrow> bool" where
  "keyed ident m \<longleftrightarrow> distinct (map fst m) \<and> list_all (\<lambda>(k, v). k = ident v) m"

text \<open>
  The four lines of \<^verbatim>\<open>processXMLSuggestions\<close> that compute \<^verbatim>\<open>code\<close> from the text of
  the code element: the whole text is trimmed and split into lines, then the first and
  the last of these lines are trimmed, and the lines are joined again.
\<close>

definition trimCodeBlock :: "string \<Rightarrow> string" where
  "trimCodeBlock rawCode =
     (let lines0 = js_split newline (trim rawCode);
          lines1 = lines0[0 := trim (lines0 ! 0)];
          lines2 = lines1[length lines1 - 1 := trim (lines1 ! (length lines1 - 1))]
      in js_join [newline] lines2)"

text \<open>
  A suggestion element as the XML parser delivers it: each child element is an array,
  of which the source reads entry 0. A child that is missing is undefined, and reading
  its entry 0 throws; \<open>None\<close> stands for a missing child.
\<close>

record RawSuggestion =
  rawDescribe :: "string option"
  rawType :: "string option"
  rawComment :: "string option"
  rawCode :: "string option"
  rawFilename :: "string option"

definition convertRawSuggestion :: "RawSuggestion \<Rightarrow> error + PRSuggestion" where
  "convertRawSuggestion rawSuggestion =
     (case (rawCode rawSuggestion, rawDescribe rawSuggestion, rawType rawSuggestion,
            rawComment rawSuggestion, rawFilename rawSuggestion) of
        (Some c, Some d, Some t, Some m, Some f) \<Rightarrow>
          Inr \<lparr>describe = d, suggestionType = t, comment = m, code = trimCodeBlock c,
               suggestionFilename = f\<rparr>
      | _ \<Rightarrow> Inl (TypeError ''Cannot read properties of undefined''))"

text \<open>
  A suggestion element whose code is written on lines of its own, indented, as a model
  writes it between the tags.
\<close>

definition exampleRawSuggestion :: RawSuggestion where
  "exampleRawSuggestion =
     \<lparr>rawDescribe = Some ''d'', rawType = Some ''t'', rawComment = Some ''m'',
      rawCode = Some ''\<newline>  a\<newline>    b\<newline>  c\<newline>'', rawFilename = Some ''f.py''\<rparr>"

section \<open>The reviewer and the retry orchestration\<close>

text \<open>
  The reply of the model: its text and, when it called a function, the JSON text of the
  call's arguments.
\<close>

record ChatCompletionMessage =
  messageContent :: string
  function_call :: "string option"

text \<open>
  \<^verbatim>\<open>generateChatCompletion\<close> is a collaborator (module \<^verbatim>\<open>./llms/chat\<close>) and a
  parameter of the model: it takes the conversation and the name of the function the
  model is required to call, if any, and it may reject.
\<close>

type_synonym chat =
  "ChatCompletionMessageParam list \<Rightarrow> string option \<Rightarrow> error + ChatCompletionMessage"

definition reviewDiff :: "chat \<Rightarrow> ChatCompletionMessageParam list \<Rightarrow> error + string" where
  "reviewDiff generateChatCompletion messages =
     (case generateChatCompletion messages None of
        Inl exc \<Rightarrow> Inl exc
      | Inr message \<Rightarrow> Inr (messageContent message))"

definition reviewFiles ::
  "chat \<Rightarrow> PRFile list \<Rightarrow> (PRFile \<Rightarrow> string) \<Rightarrow> (string \<Rightarrow> ChatCompletionMessageParam list)
     \<Rightarrow> error + string" where
  "reviewFiles generateChatCompletion files patchBuilder convoBuilder =
     (let patches = map patchBuilder files;
          messages = convoBuilder (js_join [newline] patches)
      in reviewDiff generateChatCompletion messages)"

text \<open>
  \<^verbatim>\<open>Promise.all\<close> over calls that may reject: the list of results when all succeed,
  a rejection otherwise. Which rejection is reported when several calls reject depends
  on timing in the source; the model reports the first in list order.
\<close>

fun promiseAll :: "('e + 'a) list \<Rightarrow> 'e + 'a list" where
  "promiseAll [] = Inr []"
| "promiseAll (Inl exc # rest) = Inl exc"
| "promiseAll (Inr x # rest) =
     (case promiseAll rest of Inl exc \<Rightarrow> Inl exc | Inr xs \<Rightarrow> Inr (x # xs))"

record BuilderResponse =
  responseComment :: string
  structuredComments :: "PRSuggestion list"

record Builders =
  convoBuilder :: "string \<Rightarrow> ChatCompletionMessageParam list"
  responseBuilder :: "string list \<Rightarrow> error + BuilderResponse"

text \<open>
  \<^verbatim>\<open>reviewChanges\<close>. The source assigns \<^verbatim>\<open>patchTokenLength\<close> on the caller's file
  objects, so the model returns the files as the call leaves them together with the
  outcome: the response, or the exception of a model call or of the response builder.
\<close>

definition filesAfterReview :: "prompts \<Rightarrow> PRFile list \<Rightarrow> PRFile list" where
  "filesAfterReview P files =
     map (\<lambda>file. if filterFile file then cacheTokenLength P file else file) files"

definition reviewChanges ::
  "prompts \<Rightarrow> chat \<Rightarrow> PRFile list \<Rightarrow> (string \<Rightarrow> ChatCompletionMessageParam list)
     \<Rightarrow> (string list \<Rightarrow> error + BuilderResponse) \<Rightarrow> PRFile list \<times> (error + BuilderResponse)" where
  "reviewChanges P generateChatCompletion files convoBuilder' responseBuilder' =
     (let patchBuilder = buildPatchPrompt P;
          filesAfter = filesAfterReview P files;
          groups = reviewChanges_groups P files convoBuilder'
      in (filesAfter,
          (case promiseAll
                  (map (\<lambda>patchGroup.
                          reviewFiles generateChatCompletion patchGroup patchBuilder convoBuilder')
                     groups) of
             Inl exc \<Rightarrow> Inl exc
           | Inr feedbacks \<Rightarrow>
               (case responseBuilder' feedbacks of
                  Inl exc \<Rightarrow> Inl exc
                | Inr response \<Rightarrow> Inr response))))"

text \<open>
  \<^verbatim>\<open>reviewChangesRetry\<close>: the loop over the strategies, each run on the same file
  objects, and the final \<^verbatim>\<open>throw\<close>.
\<close>

fun reviewChangesRetry ::
  "prompts \<Rightarrow> chat \<Rightarrow> PRFile list \<Rightarrow> Builders list \<Rightarrow> error + BuilderResponse" where
  "reviewChangesRetry P generateChatCompletion files [] =
     Inl (Error ''All convoBuilders failed.'')"
| "reviewChangesRetry P generateChatCompletion files (builder # rest) =
     (case reviewChanges P generateChatCompletion files
             (convoBuilder builder) (responseBuilder builder) of
        (filesAfter, Inr response) \<Rightarrow> Inr response
      | (filesAfter, Inl exc) \<Rightarrow> reviewChangesRetry P generateChatCompletion filesAfter rest)"

text \<open>The outcome of one strategy run end to end on the given files.\<close>

definition strategyOutcome ::
  "prompts \<Rightarrow> chat \<Rightarrow> PRFile list \<Rightarrow> Builders \<Rightarrow> error + BuilderResponse" where
  "strategyOutcome P generateChatCompletion files builder =
     snd (reviewChanges P generateChatCompletion files
            (convoBuilder builder) (responseBuilder builder))"

text \<open>\<^verbatim>\<open>basicResponseBuilder\<close>: the feedbacks joined by line breaks, no structured comments.\<close>

definition basicResponseBuilder :: "string list \<Rightarrow> error + BuilderResponse" where
  "basicResponseBuilder feedbacks =
     Inr \<lparr>responseComment = js_join [newline] feedbacks, structuredComments = []\<rparr>"

subsection \<open>Concrete strategies\<close>

text \<open>
  Inputs on which the retry loop is run: a model that always answers with the same text,
  a response builder that fails as the XML parser does on text that is not XML, and the
  two strategies in the order of \<^verbatim>\<open>processPullRequest\<close>.
\<close>

definition exampleChat :: chat where
  "exampleChat messages functionName = Inr \<lparr>messageContent = ''Looks fine.'', function_call = None\<rparr>"

definition failingResponseBuilder :: "string list \<Rightarrow> error + BuilderResponse" where
  "failingResponseBuilder feedbacks = Inl (Error ''Non-whitespace before first tag.'')"

definition exampleBuilders :: "Builders list" where
  "exampleBuilders =
     [\<lparr>convoBuilder = exampleConvoBuilder, responseBuilder = failingResponseBuilder\<rparr>,
      \<lparr>convoBuilder = exampleConvoBuilder, responseBuilder = basicResponseBuilder\<rparr>]"

section \<open>The inline fix generator\<close>

text \<open>
  \<^verbatim>\<open>CodeSuggestion\<close>; the source's fields \<^verbatim>\<open>file\<close> and \<^verbatim>\<open>comment\<close> are written
  \<open>fixFile\<close> and \<open>fixComment\<close>.
\<close>

record CodeSuggestion =
  fixFile :: string
  line_start :: int
  line_end :: int
  correction :: string
  fixComment :: string

text \<open>
  The arguments of the function call after \<^verbatim>\<open>JSON.parse\<close>, for a reply that follows
  the schema of \<^verbatim>\<open>INLINE_FIX_FUNCTION\<close>: a code string, two integer line numbers and a
  comment.
\<close>

record FixArguments =
  argCode :: string
  argLineStart :: int
  argLineEnd :: int
  argComment :: string

text \<open>
  \<^verbatim>\<open>indentCodeFix\<close>. \<^verbatim>\<open>fileLines[lineStart - 1]\<close> is undefined outside the array,
  and calling \<^verbatim>\<open>match\<close> on it throws. The regular expression \<^verbatim>\<open>/^(\s*)/\<close> matches
  the leading white space of the line.
\<close>

definition indentCodeFix :: "string \<Rightarrow> string \<Rightarrow> int \<Rightarrow> error + string" where
  "indentCodeFix fileText codeText lineStart =
     (let fileLines = js_split newline fileText in
      if lineStart - 1 < 0 \<or> int (length fileLines) \<le> lineStart - 1
      then Inl (TypeError ''Cannot read properties of undefined (reading match)'')
      else
        let firstLine = fileLines ! nat (lineStart - 1);
            codeLines = js_split newline codeText;
            indentation = takeWhile isWhiteSpace firstLine;
            indentedCodeLines = map (\<lambda>line. indentation @ line) codeLines
        in Inr (js_join [newline] indentedCodeLines))"

definition isCodeSuggestionNew :: "string \<Rightarrow> CodeSuggestion \<Rightarrow> bool" where
  "isCodeSuggestionNew contents suggestion =
     (let fileLines = js_split newline contents;
          targetLines =
            js_join [newline]
              (js_slice (line_start suggestion - 1) (line_end suggestion) fileLines)
      in if trim targetLines = trim (correction suggestion) then False else True)"

text \<open>
  The collaborators of \<^verbatim>\<open>generateInlineComments\<close>, parameters of the model: the
  prompt builder \<^verbatim>\<open>getInlineFixPrompt\<close> and the name of the function schema
  \<^verbatim>\<open>INLINE_FIX_FUNCTION\<close> (module \<^verbatim>\<open>./prompts/inline-prompt\<close>), the model call, and
  \<^verbatim>\<open>JSON.parse\<close> read through the schema. The three functions may throw.
\<close>

record inlineServices =
  getInlineFixPrompt :: "string option \<Rightarrow> PRSuggestion \<Rightarrow> error + ChatCompletionMessageParam list"
  INLINE_FIX_FUNCTION :: string
  generateChatCompletion :: chat
  parseArguments :: "string \<Rightarrow> error + FixArguments"

text \<open>
  The body of the \<^verbatim>\<open>try\<close> block of \<^verbatim>\<open>generateInlineComments\<close>: the fix, null when
  the fix is not new, or the exception that leaves the block. File contents that are
  null make \<^verbatim>\<open>indentCodeFix\<close> throw at \<^verbatim>\<open>file.split\<close>.
\<close>

definition generateInlineComments_try ::
  "inlineServices \<Rightarrow> PRSuggestion \<Rightarrow> PRFile \<Rightarrow> error + CodeSuggestion option" where
  "generateInlineComments_try S suggestion prFile =
     (case getInlineFixPrompt S (current_contents prFile) suggestion of
        Inl exc \<Rightarrow> Inl exc
      | Inr messages \<Rightarrow>
     (case generateChatCompletion S messages (Some (INLINE_FIX_FUNCTION S)) of
        Inl exc \<Rightarrow> Inl exc
      | Inr reply \<Rightarrow>
     (case function_call reply of
        None \<Rightarrow> Inl (Error ''No function call found'')
      | Some arguments \<Rightarrow>
     (case parseArguments S arguments of
        Inl exc \<Rightarrow> Inl exc
      | Inr args \<Rightarrow>
     (case current_contents prFile of
        None \<Rightarrow> Inl (TypeError ''Cannot read properties of null (reading split)'')
      | Some contents \<Rightarrow>
     (case indentCodeFix contents (argCode args) (argLineStart args) of
        Inl exc \<Rightarrow> Inl exc
      | Inr indentedCode \<Rightarrow>
          let codeFix =
                \<lparr>fixFile = suggestionFilename suggestion,
                 line_start = argLineStart args,
                 line_end = argLineEnd args,
                 correction = indentedCode,
                 fixComment = argComment args\<rparr>
          in if isCodeSuggestionNew contents codeFix then Inr (Some codeFix)
             else Inr None))))))"

text \<open>
  \<^verbatim>\<open>generateInlineComments\<close>: the \<^verbatim>\<open>try\<close> block with its \<^verbatim>\<open>catch\<close>, which logs the
  exception and returns null. The result type keeps the exception case, so that
  "does not throw" is a statement about the function and not about its type.
\<close>

definition generateInlineComments ::
  "inlineServices \<Rightarrow> PRSuggestion \<Rightarrow> PRFile \<Rightarrow> error + CodeSuggestion option" where
  "generateInlineComments S suggestion prFile =
     (case generateInlineComments_try S suggestion prFile of
        Inl exc \<Rightarrow> Inr None
      | Inr fix \<Rightarrow> Inr fix)"

text \<open>
  The text that \<^verbatim>\<open>isCodeSuggestionNew\<close> compares the correction with: the lines
  \<open>lineStart\<close> to \<open>lineEnd\<close> of the contents, joined.
\<close>

definition existingText :: "string \<Rightarrow> int \<Rightarrow> int \<Rightarrow> string" where
  "existingText contents lineStart lineEnd =
     js_join [newline] (js_slice (lineStart - 1) lineEnd (js_split newline contents))"

text \<open>
  Indenting every line of a text, character by character: the indentation follows every
  line break.
\<close>

definition indentChars :: "string \<Rightarrow> string \<Rightarrow> string" where
  "indentChars ind s = concat (map (\<lambda>c. if c = newline then newline # ind else [c]) s)"

subsection \<open>Concrete inputs of the inline fix generator\<close>

text \<open>
  A Python file of two lines, a suggestion for it, a model that answers with a call
  whose arguments replace line 2 by a given code, and a model whose call is rejected.
\<close>

definition pythonFile :: PRFile where
  "pythonFile =
     \<lparr>filename = ''f.py'', patch = ''+    pass'', old_contents = None,
      current_contents = Some ''def f():\<newline>    pass\<newline>'', patchTokenLength = 9\<rparr>"

definition exampleSuggestion :: PRSuggestion where
  "exampleSuggestion =
     \<lparr>describe = ''Empty body'', suggestionType = ''style'', comment = ''Nothing happens here.'',
      code = ''pass'', suggestionFilename = ''f.py''\<rparr>"

definition exampleServices :: "string \<Rightarrow> inlineServices" where
  "exampleServices replacement =
     \<lparr>getInlineFixPrompt = (\<lambda>contents suggestion. Inr [\<lparr>role = ''user'', content = ''Fix it.''\<rparr>]),
      INLINE_FIX_FUNCTION = ''fix'',
      generateChatCompletion = (\<lambda>messages functionName.
         Inr \<lparr>messageContent = [], function_call = Some ''{}''\<rparr>),
      parseArguments = (\<lambda>arguments.
         Inr \<lparr>argCode = replacement, argLineStart = 2, argLineEnd = 2,
              argComment = ''No change.''\<rparr>)\<rparr>"

definition failingServices :: inlineServices where
  "failingServices =
     \<lparr>getInlineFixPrompt = (\<lambda>contents suggestion. Inr [\<lparr>role = ''user'', content = ''Fix it.''\<rparr>]),
      INLINE_FIX_FUNCTION = ''fix'',
      generateChatCompletion = (\<lambda>messages functionName. Inl (Error ''429 Too Many Requests'')),
      parseArguments = (\<lambda>arguments. Inl (SyntaxError ''Unexpected end of JSON input''))\<rparr>"

section \<open>Facts about splitting and joining\<close>

lemma js_split_not_Nil: "js_split c s \<noteq> []"
  by (induction s) (auto split: list.splits)

lemma js_split_no_separator: "l \<in> set (js_split c s) \<Longrightarrow> c \<notin> set l"
proof (induction s arbitrary: l)
  case Nil
  then show ?case by simp
next
  case (Cons x xs)
  then show ?case
    by (cases "js_split c xs") (auto split: if_splits)
qed

lemma js_split_without_separator: "c \<notin> set s \<Longrightarrow> js_split c s = [s]"
  by (induction s) auto

lemma js_split_append:
  "js_split c (a @ c # b) = js_split c a @ js_split c b"
proof (induction a)
  case Nil
  then show ?case by simp
next
  case (Cons x xs)
  then show ?case
    using js_split_not_Nil [of c xs] by (cases "js_split c xs") auto
qed

lemma length_js_split: "length (js_split c s) = Suc (length (filter (\<lambda>x. x = c) s))"
  using js_split_not_Nil [of c]
  by (induction s) (auto split: list.splits)

lemma last_js_split: "last (js_split c s) = rev (takeWhile (\<lambda>x. x \<noteq> c) (rev s))"
proof (cases "c \<in> set s")
  case False
  then have "takeWhile (\<lambda>x. x \<noteq> c) (rev s) = rev s"
    by auto
  moreover from False have "last (js_split c s) = s"
    by (simp add: js_split_without_separator)
  ultimately show ?thesis
    by (simp only: rev_rev_ident)
next
  case True
  then obtain a b where s: "s = a @ c # b" and b: "c \<notin> set b"
    by (meson split_list_last)
  from b have "takeWhile (\<lambda>x. x \<noteq> c) (rev b @ c # rev a) = rev b"
    by (auto simp: takeWhile_tail)
  then have "rev (takeWhile (\<lambda>x. x \<noteq> c) (rev s)) = b"
    using s by simp
  moreover have "last (js_split c s) = b"
    using s b js_split_not_Nil [of c a]
    by (simp add: js_split_append js_split_without_separator)
  ultimately show ?thesis
    by simp
qed

lemma js_join_Cons: "ls \<noteq> [] \<Longrightarrow> js_join sep (l # ls) = l @ sep @ js_join sep ls"
  by (cases ls) auto

lemma js_split_js_join:
  assumes "ls \<noteq> []" and "\<And>l. l \<in> set ls \<Longrightarrow> c \<notin> set l"
  shows "js_split c (js_join [c] ls) = ls"
  using assms
proof (induction ls)
  case Nil
  then show ?case by simp
next
  case (Cons x ls)
  show ?case
  proof (cases "ls = []")
    case True
    with Cons.prems show ?thesis
      by (simp add: js_split_without_separator)
  next
    case False
    with Cons have "js_split c (js_join [c] ls) = ls"
      by simp
    moreover have "c \<notin> set x"
      using Cons.prems by simp
    ultimately show ?thesis
      using False js_split_append [of c x "js_join [c] ls"]
      by (simp add: js_join_Cons js_split_without_separator)
  qed
qed

lemma pop_js_split: "pop (js_split c s) = Some (rev (takeWhile (\<lambda>x. x \<noteq> c) (rev s)))"
  by (simp add: pop_def js_split_not_Nil last_js_split)

lemma js_split_single: "length (js_split c s) \<le> 1 \<longleftrightarrow> c \<notin> set s"
  by (auto simp: length_js_split filter_empty_conv)

section \<open>The file filter: what the code accepts\<close>

lemma toLowerCaseChar_idem: "toLowerCaseChar (toLowerCaseChar c) = toLowerCaseChar c"
  by (simp add: toLowerCaseChar_def upperCaseLetters_def lowerCaseLetters_def)

lemma toLowerCaseChar_dot: "(toLowerCaseChar c = CHR ''.'') = (c = CHR ''.'')"
  by (simp add: toLowerCaseChar_def upperCaseLetters_def lowerCaseLetters_def)

lemma toLowerCaseChar_dot': "(CHR ''.'' = toLowerCaseChar c) = (c = CHR ''.'')"
  using toLowerCaseChar_dot [of c] by auto

lemma toLowerCase_part:
  assumes "set t \<subseteq> set (toLowerCase s)"
  shows "toLowerCase t = t"
proof -
  have "toLowerCaseChar x = x" if "x \<in> set t" for x
  proof -
    from that assms obtain y where "x = toLowerCaseChar y"
      by (auto simp: toLowerCase_def)
    then show ?thesis
      by (simp add: toLowerCaseChar_idem)
  qed
  then show ?thesis
    unfolding toLowerCase_def by (simp add: map_idI)
qed

lemma dot_in_toLowerCase: "CHR ''.'' \<in> set (toLowerCase s) \<longleftrightarrow> CHR ''.'' \<in> set s"
  by (auto simp: toLowerCase_def toLowerCaseChar_dot' image_iff)

lemma extensionOf_lower: "toLowerCase (extensionOf (toLowerCase s)) = extensionOf (toLowerCase s)"
proof (rule toLowerCase_part)
  show "set (extensionOf (toLowerCase s)) \<subseteq> set (toLowerCase s)"
    unfolding extensionOf_def by (auto dest: set_takeWhileD)
qed

section \<open>Stripping removed lines: the lines that remain\<close>

lemma patch_stripRemovedLines:
  "patch (stripRemovedLines f) = js_join [newline] (keptLines (patch f))"
  by (simp add: stripRemovedLines_def keptLines_def)

lemma js_split_kept:
  "js_split newline (js_join [newline] (keptLines p)) =
     (if keptLines p = [] then [[]] else keptLines p)"
proof (cases "keptLines p = []")
  case True
  then show ?thesis
    by simp
next
  case False
  have "js_split newline (js_join [newline] (keptLines p)) = keptLines p"
  proof (rule js_split_js_join [OF False])
    fix l assume "l \<in> set (keptLines p)"
    then show "newline \<notin> set l"
      by (auto simp: keptLines_def dest: js_split_no_separator)
  qed
  then show ?thesis
    using False by simp
qed

lemma keptLines_again:
  "keptLines (js_join [newline] (keptLines p)) = (if keptLines p = [] then [[]] else keptLines p)"
proof -
  have "filter (\<lambda>line. \<not> startsWith line ''-'') (keptLines p) = keptLines p"
    by (simp add: keptLines_def)
  then show ?thesis
    using js_split_kept [of p]
    by (simp add: keptLines_def [of "js_join [newline] (keptLines p)"] startsWith_def)
qed

text \<open>
  Claim C9. For every file, the lines of the stripped patch are exactly the lines of the
  patch that do not begin with \<^verbatim>\<open>-\<close>, unchanged and in their order (a patch of which
  no line remains becomes the empty text, whose only line is empty); no other field of
  the file changes; the patch \<^verbatim>\<open>"+a\n-b\n c\n"\<close> becomes \<^verbatim>\<open>"+a\n c\n"\<close>; and
  stripping twice is the same as stripping once.
\<close>

theorem stripRemovedLines_keeps_other_lines:
  "js_split newline (patch (stripRemovedLines f)) =
     (if keptLines (patch f) = [] then [[]] else keptLines (patch f))
   \<and> stripRemovedLines f = f\<lparr>patch := patch (stripRemovedLines f)\<rparr>
   \<and> patch (stripRemovedLines (exampleFile n ''+a\<newline>-b\<newline> c\<newline>'')) = ''+a\<newline> c\<newline>''
   \<and> stripRemovedLines (stripRemovedLines f) = stripRemovedLines f"
proof -
  have lines: "js_split newline (patch (stripRemovedLines f)) =
                 (if keptLines (patch f) = [] then [[]] else keptLines (patch f))"
    by (simp only: patch_stripRemovedLines js_split_kept)
  have frame: "stripRemovedLines f = f\<lparr>patch := patch (stripRemovedLines f)\<rparr>"
    by (simp add: stripRemovedLines_def)
  have example:
    "patch (stripRemovedLines (exampleFile n ''+a\<newline>-b\<newline> c\<newline>'')) = ''+a\<newline> c\<newline>''"
    by (simp add: stripRemovedLines_def exampleFile_def newline_def startsWith_def)
  have "js_join [newline] (keptLines (js_join [newline] (keptLines (patch f))))
          = js_join [newline] (keptLines (patch f))"
    by (simp add: keptLines_again)
  then have twice: "stripRemovedLines (stripRemovedLines f) = stripRemovedLines f"
    by (simp add: stripRemovedLines_def keptLines_def)
  from lines frame example twice show ?thesis
    by blast
qed

section \<open>The prompt packer: every group fits\<close>

lemma greedyLoop_greedyGroups:
  "(case greedyLoop w fs cur acc of
      (currentGroup, processGroups') \<Rightarrow>
        if currentGroup \<noteq> [] then processGroups' @ [currentGroup] else processGroups')
   = acc @ greedyGroups w cur fs"
  by (induction fs arbitrary: cur acc) auto

lemma processExtension_eq:
  "processExtension w acc fs =
     acc @ (if w fs then [fs] else greedyGroups w [] (sort_key patchTokenLength fs))"
  unfolding processExtension_def by (simp only: greedyLoop_greedyGroups) simp

lemma concat_greedyGroups: "concat (greedyGroups w cur fs) = cur @ fs"
  by (induction fs arbitrary: cur) auto

lemma greedyGroups_nonempty: "[] \<notin> set (greedyGroups w cur fs)"
  by (induction fs arbitrary: cur) auto

lemma greedyGroups_withinLimit:
  assumes "\<And>f. f \<in> set fs \<Longrightarrow> w [f]" and "cur = [] \<or> w cur" and "g \<in> set (greedyGroups w cur fs)"
  shows "w g"
  using assms
proof (induction fs arbitrary: cur)
  case Nil
  then show ?case by (auto split: if_splits)
next
  case (Cons f fs)
  show ?case
  proof (cases "w (cur @ [f])")
    case True
    with Cons.prems have "g \<in> set (greedyGroups w (cur @ [f]) fs)"
      by simp
    with Cons.IH [of "cur @ [f]"] Cons.prems(1) True show ?thesis
      by simp
  next
    case False
    with Cons.prems(3) consider "g = cur" "cur \<noteq> []" | "g \<in> set (greedyGroups w [f] fs)"
      by (auto split: if_splits)
    then show ?thesis
    proof cases
      case 1
      with Cons.prems(2) show ?thesis by simp
    next
      case 2
      with Cons.IH [of "[f]"] Cons.prems(1) show ?thesis
        by simp
    qed
  qed
qed

lemma foldl_processExtension:
  "foldl (\<lambda>processGroups (extension, filesForExt). processExtension w processGroups filesForExt) acc bs
     = acc @ concat (map (\<lambda>(extension, filesForExt). processExtension w [] filesForExt) bs)"
proof (induction bs arbitrary: acc)
  case Nil
  then show ?case by simp
next
  case (Cons b bs)
  obtain e fs where b: "b = (e, fs)" by (cases b)
  have "processExtension w acc fs = acc @ processExtension w [] fs"
    by (simp add: processExtension_eq)
  then show ?case
    using Cons.IH [of "processExtension w acc fs"] b by simp
qed

lemma in_set_update: "x \<in> set (AList.update k v al) \<Longrightarrow> x = (k, v) \<or> x \<in> set al"
  by (induction al) (auto split: if_splits)

lemma addToBucket_files:
  assumes "(e, b) \<in> set (addToBucket ext f m)"
    and "\<And>e b. (e, b) \<in> set m \<Longrightarrow> set b \<subseteq> S" and "f \<in> S"
  shows "set b \<subseteq> S"
proof (cases "map_of m ext")
  case None
  with assms(1) have "(e, b) \<in> set m \<or> b = [f]"
    by (auto simp: addToBucket_def)
  with assms(2,3) show ?thesis by auto
next
  case (Some b0)
  then have "(ext, b0) \<in> set m"
    by (rule map_of_SomeD)
  with assms(2) have "set b0 \<subseteq> S" by blast
  moreover from Some assms(1) have "(e, b) \<in> set m \<or> b = b0 @ [f]"
    by (auto simp: addToBucket_def dest: in_set_update)
  ultimately show ?thesis
    using assms(2,3) by auto
qed

lemma bucketFile_files:
  assumes "(e, b) \<in> set (bucketFile m f)"
    and "\<And>e b. (e, b) \<in> set m \<Longrightarrow> set b \<subseteq> S" and "f \<in> S"
  shows "set b \<subseteq> S"
proof -
  from assms(1) consider "(e, b) \<in> set m" | ext where "(e, b) \<in> set (addToBucket ext f m)"
    by (auto simp: bucketFile_def split: option.splits if_splits)
  then show ?thesis
  proof cases
    case 1
    then show ?thesis using assms(2) by blast
  next
    case 2
    from addToBucket_files [OF this, of S] assms(2,3) show ?thesis
      by auto
  qed
qed

lemma groupFilesByExtension_step:
  assumes "\<And>e b. (e, b) \<in> set m \<Longrightarrow> set b \<subseteq> S" and "set fs \<subseteq> S"
    and "(e, b) \<in> set (foldl bucketFile m fs)"
  shows "set b \<subseteq> S"
  using assms
proof (induction fs arbitrary: m)
  case Nil
  then show ?case by simp
next
  case (Cons f fs)
  have "set b' \<subseteq> S" if "(e', b') \<in> set (bucketFile m f)" for e' b'
  proof (rule bucketFile_files [OF that])
    show "\<And>e b. (e, b) \<in> set m \<Longrightarrow> set b \<subseteq> S"
      by (rule Cons.prems(1))
    show "f \<in> S"
      using Cons.prems(2) by simp
  qed
  from Cons.IH [OF this] Cons.prems show ?case
    by simp
qed

lemma groupFilesByExtension_files:
  "(e, b) \<in> set (groupFilesByExtension files) \<Longrightarrow> set b \<subseteq> set files"
  unfolding groupFilesByExtension_def
  by (rule groupFilesByExtension_step [where m = "[]" and fs = files]) auto

lemma processExtension_withinLimit:
  assumes "\<And>f. f \<in> set fs \<Longrightarrow> w [f]" and "g \<in> set (processExtension w [] fs)"
  shows "w g"
proof (cases "w fs")
  case True
  with assms(2) show ?thesis by (simp add: processExtension_eq)
next
  case False
  with assms(2) have "g \<in> set (greedyGroups w [] (sort_key patchTokenLength fs))"
    by (simp add: processExtension_eq)
  then show ?thesis
    by (rule greedyGroups_withinLimit [rotated 2]) (use assms(1) in auto)
qed

lemma processWithinLimitFiles_withinLimit:
  assumes "\<And>f. f \<in> set files \<Longrightarrow> promptWithinLimit P pb cb [f]"
    and "g \<in> set (processWithinLimitFiles P files pb cb)"
  shows "promptWithinLimit P pb cb g"
proof (cases "promptWithinLimit P pb cb files")
  case True
  with assms(2) show ?thesis by (simp add: processWithinLimitFiles_def)
next
  case False
  with assms(2) obtain e b where b: "(e, b) \<in> set (groupFilesByExtension files)"
    and g: "g \<in> set (processExtension (promptWithinLimit P pb cb) [] b)"
    by (auto simp: processWithinLimitFiles_def foldl_processExtension)
  from groupFilesByExtension_files [OF b] assms(1) have "\<And>f. f \<in> set b \<Longrightarrow> promptWithinLimit P pb cb [f]"
    by blast
  from processExtension_withinLimit [OF this g] show ?thesis by simp
qed

lemma processOutsideLimitFiles_withinLimit:
  assumes "g \<in> set (processOutsideLimitFiles P files pb cb)"
  shows "promptWithinLimit P pb cb g"
proof -
  let ?files' = "map stripRemovedLines files"
  show ?thesis
  proof (cases "files = [] \<or> promptWithinLimit P pb cb ?files'")
    case True
    with assms show ?thesis
      by (auto simp: processOutsideLimitFiles_def Let_def split: if_splits)
  next
    case False
    with assms have "g \<in> set (processWithinLimitFiles P
        (filter (\<lambda>file. promptWithinLimit P pb cb [file]) ?files') pb cb)"
      by (simp add: processOutsideLimitFiles_def Let_def)
    then show ?thesis
      by (rule processWithinLimitFiles_withinLimit [rotated]) simp
  qed
qed

lemmas example_defs =
  promptWithinLimit_def examplePrompts_def exampleConvoBuilder_def tsA_def tsB_def tsC_def
  exampleFile_def newline_def

lemmas filter_defs =
  filterFile_def filesToIgnore_def extensionsToIgnore_def pop_def toLowerCase_def
  toLowerCaseChar_def upperCaseLetters_def lowerCaseLetters_def

lemmas packer_defs =
  reviewChanges_groups_def cacheTokenLength_def processOutsideLimitFiles_def
  processWithinLimitFiles_def groupFilesByExtension_def bucketFile_def addToBucket_def
  processExtension_def

lemma example_groups:
  "reviewChanges_groups (examplePrompts 18) [tsA, tsB, tsC] exampleConvoBuilder
     = [[tsA, tsB], [tsC]]"
  by (simp add: packer_defs filter_defs example_defs)

text \<open>
  Claim C1. For every file list, every choice of the prompt functions (so every token
  budget) and every conversation builder, each group that \<^verbatim>\<open>reviewChanges\<close> hands to
  the reviewer has a conversation, as \<^verbatim>\<open>constructPrompt\<close> builds it, that
  \<^verbatim>\<open>isConversationWithinLimit\<close> accepts. This covers the groups seeded with a file that
  failed a probe and the groups of stripped files.
\<close>

theorem reviewChanges_groups_within_limit:
  "\<forall>g \<in> set (reviewChanges_groups P files cb).
     isConversationWithinLimit P (constructPrompt P g (buildPatchPrompt P) cb)"
proof
  fix g assume "g \<in> set (reviewChanges_groups P files cb)"
  then consider
      "g \<in> set (processWithinLimitFiles P
         (filter (\<lambda>file. promptWithinLimit P (buildPatchPrompt P) cb [file])
            (map (cacheTokenLength P) (filter filterFile files))) (buildPatchPrompt P) cb)"
    | "g \<in> set (processOutsideLimitFiles P
         (filter (\<lambda>file. \<not> promptWithinLimit P (buildPatchPrompt P) cb [file])
            (map (cacheTokenLength P) (filter filterFile files))) (buildPatchPrompt P) cb)"
    by (auto simp: reviewChanges_groups_def Let_def)
  then have "promptWithinLimit P (buildPatchPrompt P) cb g"
  proof cases
    case 1
    then show ?thesis
      by (rule processWithinLimitFiles_withinLimit [rotated]) simp
  next
    case 2
    then show ?thesis
      by (rule processOutsideLimitFiles_withinLimit)
  qed
  then show "isConversationWithinLimit P (constructPrompt P g (buildPatchPrompt P) cb)"
    by (simp add: promptWithinLimit_def)
qed

theorem reviewChanges_groups_within_limit_witness:
  "[tsC] \<in> set (reviewChanges_groups (examplePrompts 18) [tsA, tsB, tsC] exampleConvoBuilder)
   \<and> isConversationWithinLimit (examplePrompts 18)
       (constructPrompt (examplePrompts 18) [tsC] (buildPatchPrompt (examplePrompts 18))
          exampleConvoBuilder)"
proof -
  have member:
    "[tsC] \<in> set (reviewChanges_groups (examplePrompts 18) [tsA, tsB, tsC] exampleConvoBuilder)"
    by (simp add: example_groups)
  with reviewChanges_groups_within_limit
         [of "examplePrompts 18" "[tsA, tsB, tsC]" exampleConvoBuilder]
  show ?thesis
    by blast
qed

section \<open>The prompt packer: sorting and greedy accumulation\<close>

lemma greedyGroups_structure:
  assumes "cur \<noteq> []"
  shows "greedyGroups w cur fs \<noteq> []
    \<and> take (length cur) (hd (greedyGroups w cur fs)) = cur
    \<and> (\<forall>n. length cur < n \<and> n \<le> length (hd (greedyGroups w cur fs))
           \<longrightarrow> w (take n (hd (greedyGroups w cur fs))))
    \<and> (\<forall>g \<in> set (tl (greedyGroups w cur fs)). \<forall>n. 2 \<le> n \<and> n \<le> length g \<longrightarrow> w (take n g))
    \<and> (\<forall>i. Suc i < length (greedyGroups w cur fs)
           \<longrightarrow> \<not> w (greedyGroups w cur fs ! i @ [hd (greedyGroups w cur fs ! Suc i)]))"
  using assms
proof (induction fs arbitrary: cur)
  case Nil
  then show ?case by auto
next
  case (Cons f fs)
  show ?case
  proof (cases "w (cur @ [f])")
    case True
    let ?gs = "greedyGroups w (cur @ [f]) fs"
    have eq: "greedyGroups w cur (f # fs) = ?gs"
      using True by simp
    from Cons.IH [of "cur @ [f]"] have ne: "?gs \<noteq> []"
      and pre: "take (Suc (length cur)) (hd ?gs) = cur @ [f]"
      and probes: "\<forall>n. Suc (length cur) < n \<and> n \<le> length (hd ?gs) \<longrightarrow> w (take n (hd ?gs))"
      and rest: "\<forall>g \<in> set (tl ?gs). \<forall>n. 2 \<le> n \<and> n \<le> length g \<longrightarrow> w (take n g)"
      and bound: "\<forall>i. Suc i < length ?gs \<longrightarrow> \<not> w (?gs ! i @ [hd (?gs ! Suc i)])"
      by simp_all
    from pre have "take (length cur) (take (Suc (length cur)) (hd ?gs)) = cur"
      by simp
    then have pre': "take (length cur) (hd ?gs) = cur"
      by (simp add: min_def)
    have probes': "w (take n (hd ?gs))" if "length cur < n" "n \<le> length (hd ?gs)" for n
    proof (cases "n = Suc (length cur)")
      case True
      with pre \<open>w (cur @ [f])\<close> show ?thesis by simp
    next
      case False
      with that probes show ?thesis by simp
    qed
    show ?thesis
      unfolding eq using ne pre' probes' rest bound by blast
  next
    case False
    let ?gs = "greedyGroups w [f] fs"
    have eq: "greedyGroups w cur (f # fs) = cur # ?gs"
      using False Cons.prems by simp
    from Cons.IH [of "[f]"] have ne: "?gs \<noteq> []"
      and pre: "take (Suc 0) (hd ?gs) = [f]"
      and probes: "\<forall>n. Suc 0 < n \<and> n \<le> length (hd ?gs) \<longrightarrow> w (take n (hd ?gs))"
      and rest: "\<forall>g \<in> set (tl ?gs). \<forall>n. 2 \<le> n \<and> n \<le> length g \<longrightarrow> w (take n g)"
      and bound: "\<forall>i. Suc i < length ?gs \<longrightarrow> \<not> w (?gs ! i @ [hd (?gs ! Suc i)])"
      by simp_all
    from pre have hd: "hd (hd ?gs) = f"
      by (cases "hd ?gs") auto
    have all: "\<forall>n. 2 \<le> n \<and> n \<le> length g \<longrightarrow> w (take n g)" if "g \<in> set ?gs" for g
    proof -
      from that ne have "g = hd ?gs \<or> g \<in> set (tl ?gs)"
        by (cases ?gs) auto
      with probes rest show ?thesis by auto
    qed
    have bound': "\<not> w ((cur # ?gs) ! i @ [hd ((cur # ?gs) ! Suc i)])" if "Suc i < length (cur # ?gs)" for i
    proof (cases i)
      case 0
      with ne hd False show ?thesis
        by (simp add: hd_conv_nth)
    next
      case (Suc j)
      with that bound show ?thesis by simp
    qed
    show ?thesis
      unfolding eq using all bound' by auto
  qed
qed

lemma greedyGroups_probes:
  "(\<forall>g \<in> set (greedyGroups w [] fs). \<forall>n. 2 \<le> n \<and> n \<le> length g \<longrightarrow> w (take n g))
   \<and> (\<forall>i. Suc i < length (greedyGroups w [] fs)
           \<longrightarrow> \<not> w (greedyGroups w [] fs ! i @ [hd (greedyGroups w [] fs ! Suc i)]))"
proof (cases fs)
  case Nil
  then show ?thesis by simp
next
  case (Cons f fs')
  let ?gs = "greedyGroups w [f] fs'"
  have eq: "greedyGroups w [] fs = ?gs"
    using Cons by simp
  from greedyGroups_structure [of "[f]" w fs'] have ne: "?gs \<noteq> []"
      and probes: "\<forall>n. Suc 0 < n \<and> n \<le> length (hd ?gs) \<longrightarrow> w (take n (hd ?gs))"
      and rest: "\<forall>g \<in> set (tl ?gs). \<forall>n. 2 \<le> n \<and> n \<le> length g \<longrightarrow> w (take n g)"
      and bound: "\<forall>i. Suc i < length ?gs \<longrightarrow> \<not> w (?gs ! i @ [hd (?gs ! Suc i)])"
      by simp_all
  have all: "\<forall>n. 2 \<le> n \<and> n \<le> length g \<longrightarrow> w (take n g)" if "g \<in> set ?gs" for g
  proof -
    from that ne have "g = hd ?gs \<or> g \<in> set (tl ?gs)"
      by (cases ?gs) auto
    with probes rest show ?thesis by auto
  qed
  show ?thesis
    unfolding eq using all bound by blast
qed

text \<open>
  For an extension bucket that does not fit as a whole, the packer appends to the groups
  found so far the groups that the greedy accumulation makes of the bucket sorted by the
  field \<^verbatim>\<open>patchTokenLength\<close>. These groups, put end to end, are the bucket in
  ascending order of that field, with files of equal value in their original order; no
  group is empty; within a group every addition after the first file passed its probe;
  and each group was closed because the probe with the first file of the next group
  failed.
\<close>

lemma processExtension_sorts_and_packs_greedily:
  assumes "\<not> w filesForExt"
  shows
    "processExtension w processGroups filesForExt
       = processGroups @ processExtension w [] filesForExt
     \<and> processExtension w [] filesForExt
         = greedyGroups w [] (sort_key patchTokenLength filesForExt)
     \<and> concat (processExtension w [] filesForExt) = sort_key patchTokenLength filesForExt
     \<and> sorted (map patchTokenLength (concat (processExtension w [] filesForExt)))
     \<and> (\<forall>k. filter (\<lambda>f. patchTokenLength f = k) (concat (processExtension w [] filesForExt))
              = filter (\<lambda>f. patchTokenLength f = k) filesForExt)
     \<and> [] \<notin> set (processExtension w [] filesForExt)
     \<and> (\<forall>g \<in> set (processExtension w [] filesForExt).
           \<forall>n. 2 \<le> n \<and> n \<le> length g \<longrightarrow> w (take n g))
     \<and> (\<forall>i. Suc i < length (processExtension w [] filesForExt)
           \<longrightarrow> \<not> w (processExtension w [] filesForExt ! i
                      @ [hd (processExtension w [] filesForExt ! Suc i)]))
     \<and> processWithinLimitFiles (examplePrompts 18) [tsA, tsB, tsC] patch exampleConvoBuilder
         = [[tsA, tsB], [tsC]]"
proof -
  let ?sorted = "sort_key patchTokenLength filesForExt"
  have eq: "processExtension w [] filesForExt = greedyGroups w [] ?sorted"
    using assms by (simp add: processExtension_eq)
  have app: "processExtension w processGroups filesForExt
               = processGroups @ processExtension w [] filesForExt"
    by (simp add: processExtension_eq)
  have cat: "concat (processExtension w [] filesForExt) = ?sorted"
    by (simp add: eq concat_greedyGroups)
  have srt: "sorted (map patchTokenLength (concat (processExtension w [] filesForExt)))"
    by (simp only: cat sorted_sort_key)
  have stable: "\<forall>k. filter (\<lambda>f. patchTokenLength f = k) (concat (processExtension w [] filesForExt))
                  = filter (\<lambda>f. patchTokenLength f = k) filesForExt"
    by (simp only: cat sort_key_stable) simp
  have nonempty: "[] \<notin> set (processExtension w [] filesForExt)"
    by (simp only: eq greedyGroups_nonempty not_False_eq_True)
  have probes:
    "(\<forall>g \<in> set (processExtension w [] filesForExt).
        \<forall>n. 2 \<le> n \<and> n \<le> length g \<longrightarrow> w (take n g))
     \<and> (\<forall>i. Suc i < length (processExtension w [] filesForExt)
           \<longrightarrow> \<not> w (processExtension w [] filesForExt ! i
                      @ [hd (processExtension w [] filesForExt ! Suc i)]))"
    unfolding eq by (rule greedyGroups_probes)
  have example:
    "processWithinLimitFiles (examplePrompts 18) [tsA, tsB, tsC] patch exampleConvoBuilder
       = [[tsA, tsB], [tsC]]"
    by (simp add: packer_defs filter_defs example_defs)
  from app eq cat srt stable nonempty probes example show ?thesis
    by blast
qed

lemma processExtension_example:
  "\<not> promptWithinLimit (examplePrompts 18) patch exampleConvoBuilder [tsC, tsA, tsB]
   \<and> processExtension (promptWithinLimit (examplePrompts 18) patch exampleConvoBuilder) []
       [tsC, tsA, tsB] = [[tsA, tsB], [tsC]]"
proof -
  have whole: "\<not> promptWithinLimit (examplePrompts 18) patch exampleConvoBuilder [tsC, tsA, tsB]"
    by (simp add: example_defs)
  have "greedyGroups (promptWithinLimit (examplePrompts 18) patch exampleConvoBuilder) []
          (sort_key patchTokenLength [tsC, tsA, tsB]) = [[tsA, tsB], [tsC]]"
    by (simp add: example_defs)
  with processExtension_sorts_and_packs_greedily
         [of "promptWithinLimit (examplePrompts 18) patch exampleConvoBuilder"
             "[tsC, tsA, tsB]" "[]"]
       whole
  show ?thesis
    by simp
qed

lemma cached_length_is_token_length:
  assumes "\<And>f n. buildPatchPrompt P (f\<lparr>patchTokenLength := n\<rparr>) = buildPatchPrompt P f"
    and "f \<in> set (map (cacheTokenLength P) (filter filterFile files))"
  shows "patchTokenLength f = getTokenLength P (buildPatchPrompt P f)"
  using assms by (auto simp: cacheTokenLength_def)

text \<open>
  Claim C6. The specification says that a bucket that does not fit as a whole is sorted
  ascending by the token length of each file's patch before the greedy accumulation.
  The sort reads the field \<^verbatim>\<open>patchTokenLength\<close>. \<^verbatim>\<open>reviewChanges\<close> sets it to the
  token length of the rendered patch, but \<^verbatim>\<open>stripRemovedLines\<close> replaces the patch and
  copies the field, so for the files that \<^verbatim>\<open>processOutsideLimitFiles\<close> routes through
  the packer the field is the length before stripping. For the files \<^verbatim>\<open>p.ts\<close>,
  \<^verbatim>\<open>q.ts\<close> and \<^verbatim>\<open>r.ts\<close> and a budget of 18 the groups are the group of the empty list
  of files that fit unstripped, then \<^verbatim>\<open>q.ts\<close> alone, then \<^verbatim>\<open>p.ts\<close> with \<^verbatim>\<open>r.ts\<close>: the
  bucket was put in the order of the fields 14, 17, 17, while the patches that are packed
  have 9, 5 and 3 tokens, which is not ascending. On the files with token lengths 5, 5
  and 10 that fit unstripped, the groups are as the specification says.
\<close>

theorem processWithinLimitFiles_sorts_stripped_files_by_stale_length:
  "patchTokenLength (cacheTokenLength P f) = getTokenLength P (buildPatchPrompt P f)
   \<and> patchTokenLength (stripRemovedLines f) = patchTokenLength f
   \<and> reviewChanges_groups (examplePrompts 18) [pTs, qTs, rTs] exampleConvoBuilder
       = [[], [stripRemovedLines qTs], [stripRemovedLines pTs, stripRemovedLines rTs]]
   \<and> map patchTokenLength [stripRemovedLines qTs, stripRemovedLines pTs, stripRemovedLines rTs]
       = [14, 17, 17]
   \<and> map (\<lambda>file. getTokenLength (examplePrompts 18) (buildPatchPrompt (examplePrompts 18) file))
         [stripRemovedLines qTs, stripRemovedLines pTs, stripRemovedLines rTs]
       = [9, 5, 3]
   \<and> \<not> sorted
         (map (\<lambda>file. getTokenLength (examplePrompts 18) (buildPatchPrompt (examplePrompts 18) file))
            (concat (reviewChanges_groups (examplePrompts 18) [pTs, qTs, rTs] exampleConvoBuilder)))
   \<and> processWithinLimitFiles (examplePrompts 18) [tsA, tsB, tsC] patch exampleConvoBuilder
       = [[tsA, tsB], [tsC]]"
proof -
  note stale_defs = pTs_def qTs_def rTs_def stripRemovedLines_def startsWith_def
  have cached: "patchTokenLength (cacheTokenLength P f) = getTokenLength P (buildPatchPrompt P f)"
    by (simp add: cacheTokenLength_def)
  have copied: "patchTokenLength (stripRemovedLines f) = patchTokenLength f"
    by (simp add: stripRemovedLines_def)
  have groups: "reviewChanges_groups (examplePrompts 18) [pTs, qTs, rTs] exampleConvoBuilder
       = [[], [stripRemovedLines qTs], [stripRemovedLines pTs, stripRemovedLines rTs]]"
    by (simp add: stale_defs packer_defs filter_defs example_defs)
  have keys:
    "map patchTokenLength [stripRemovedLines qTs, stripRemovedLines pTs, stripRemovedLines rTs]
       = [14, 17, 17]"
    by (simp add: stale_defs example_defs)
  have lengths:
    "map (\<lambda>file. getTokenLength (examplePrompts 18) (buildPatchPrompt (examplePrompts 18) file))
         [stripRemovedLines qTs, stripRemovedLines pTs, stripRemovedLines rTs]
       = [9, 5, 3]"
    by (simp add: stale_defs example_defs)
  have "\<not> sorted [9, 5, 3 :: nat]"
    by simp
  then have unsorted: "\<not> sorted
         (map (\<lambda>file. getTokenLength (examplePrompts 18) (buildPatchPrompt (examplePrompts 18) file))
            (concat (reviewChanges_groups (examplePrompts 18) [pTs, qTs, rTs] exampleConvoBuilder)))"
    using lengths by (simp only: groups concat.simps append.simps simp_thms)
  have example:
    "processWithinLimitFiles (examplePrompts 18) [tsA, tsB, tsC] patch exampleConvoBuilder
       = [[tsA, tsB], [tsC]]"
    by (simp add: packer_defs filter_defs example_defs)
  from cached copied groups keys lengths unsorted example show ?thesis
    by blast
qed

section \<open>The file filter: where the code leaves the specification\<close>

lemma filterFile_whole_path: "filterFile f = (\<not> rejectedOnWholePath f)"
proof -
  have names: "[] \<notin> set filesToIgnore" and exts: "[] \<notin> set extensionsToIgnore"
    by (simp_all add: filesToIgnore_def extensionsToIgnore_def)
  have name: "pop (js_split CHR ''/'' (toLowerCase (filename f)))
                = Some (pathStripped (toLowerCase (filename f)))"
    by (simp add: pop_js_split pathStripped_def)
  have ext: "map_option toLowerCase (pop (js_split CHR ''.'' (toLowerCase (filename f))))
                = Some (extensionOf (toLowerCase (filename f)))"
    using extensionOf_lower [of "filename f"] by (simp add: pop_js_split extensionOf_def)
  have none: "length (js_split CHR ''.'' (toLowerCase (filename f))) \<le> 1
                \<longleftrightarrow> hasNoExtension (filename f)"
    using js_split_single [of "CHR ''.''" "toLowerCase (filename f)"]
    by (simp only: dot_in_toLowerCase hasNoExtension_def)
  show ?thesis
    unfolding filterFile_def rejectedOnWholePath_def Let_def name ext none
    using names exts by auto
qed

lemma extensionOf_pathStripped:
  assumes "CHR ''.'' \<in> set (pathStripped s)"
  shows "extensionOf s = extensionOf (pathStripped s)"
proof -
  let ?t = "takeWhile (\<lambda>c. c \<noteq> CHR ''/'') (rev s)"
  let ?d = "dropWhile (\<lambda>c. c \<noteq> CHR ''/'') (rev s)"
  from assms have dot: "CHR ''.'' \<in> set ?t"
    by (simp add: pathStripped_def)
  have "takeWhile (\<lambda>c. c \<noteq> CHR ''.'') (?t @ ?d) = takeWhile (\<lambda>c. c \<noteq> CHR ''.'') ?t"
    by (rule takeWhile_append1 [OF dot]) simp
  then have "takeWhile (\<lambda>c. c \<noteq> CHR ''.'') (rev s) = takeWhile (\<lambda>c. c \<noteq> CHR ''.'') ?t"
    by (simp only: takeWhile_dropWhile_id)
  then show ?thesis
    by (simp add: extensionOf_def pathStripped_def)
qed

lemma slash_in_extensionOf:
  assumes "CHR ''.'' \<in> set s" and "CHR ''.'' \<notin> set (pathStripped s)"
  shows "CHR ''/'' \<in> set (extensionOf s)"
proof -
  let ?t = "takeWhile (\<lambda>c. c \<noteq> CHR ''/'') (rev s)"
  let ?d = "dropWhile (\<lambda>c. c \<noteq> CHR ''/'') (rev s)"
  from assms(2) have nodot: "\<And>x. x \<in> set ?t \<Longrightarrow> x \<noteq> CHR ''.''"
    by (auto simp: pathStripped_def)
  have whole: "rev s = ?t @ ?d"
    by simp
  from assms(1) have "CHR ''.'' \<in> set (rev s)"
    by simp
  then have "CHR ''.'' \<in> set ?t \<union> set ?d"
    by (metis whole set_append)
  with nodot have "CHR ''.'' \<in> set ?d"
    by blast
  then have d: "?d \<noteq> []"
    by (metis empty_iff empty_set)
  then have "\<not> (hd ?d \<noteq> CHR ''/'')"
    by (rule hd_dropWhile)
  with d obtain d' where d': "?d = CHR ''/'' # d'"
    by (cases ?d) auto
  have "takeWhile (\<lambda>c. c \<noteq> CHR ''.'') (?t @ ?d) = ?t @ takeWhile (\<lambda>c. c \<noteq> CHR ''.'') ?d"
    by (rule takeWhile_append2) (rule nodot)
  then have "takeWhile (\<lambda>c. c \<noteq> CHR ''.'') (rev s) = ?t @ takeWhile (\<lambda>c. c \<noteq> CHR ''.'') ?d"
    by (simp only: takeWhile_dropWhile_id)
  moreover have "CHR ''/'' \<in> set (takeWhile (\<lambda>c. c \<noteq> CHR ''.'') ?d)"
    by (simp only: d') simp
  ultimately show ?thesis
    by (simp add: extensionOf_def)
qed

lemma no_slash_in_extensionsToIgnore: "e \<in> set extensionsToIgnore \<Longrightarrow> CHR ''/'' \<notin> set e"
  by (auto simp: extensionsToIgnore_def)

lemma pathStripped_subset: "set (pathStripped s) \<subseteq> set s"
  unfolding pathStripped_def by (auto dest: set_takeWhileD)

text \<open>
  Claim C5. The specification says that a file is rejected exactly when its name (lower
  case, path stripped) is on the list of names, or its extension is on the list of
  extensions, or it has no extension. \<^verbatim>\<open>filterFile\<close> strips the path for the first test
  only: it looks for the dot and the extension in the whole path. So it accepts exactly
  the files that the specification accepts and, besides them, every file whose name has
  no dot but whose directory path has one, unless that name is on the list of names. The
  file \<^verbatim>\<open>.github/README\<close> is accepted, though the specification rejects it; the files
  \<^verbatim>\<open>package-lock.json\<close> and \<^verbatim>\<open>README\<close> are rejected and \<^verbatim>\<open>main.rs\<close> is accepted, as
  the specification says.
\<close>

theorem filterFile_accepts_dotted_directory:
  "filterFile f =
     (\<not> rejectedBySpec f
      \<or> (dotOnlyInDirectory (toLowerCase (filename f))
          \<and> pathStripped (toLowerCase (filename f)) \<notin> set filesToIgnore))
   \<and> filterFile (exampleFile ''.github/README'' d)
   \<and> rejectedBySpec (exampleFile ''.github/README'' d)
   \<and> \<not> filterFile (exampleFile ''package-lock.json'' d)
   \<and> filterFile (exampleFile ''main.rs'' d)
   \<and> \<not> filterFile (exampleFile ''README'' d)"
proof -
  have general: "filterFile f =
     (\<not> rejectedBySpec f
      \<or> (dotOnlyInDirectory (toLowerCase (filename f))
          \<and> pathStripped (toLowerCase (filename f)) \<notin> set filesToIgnore))"
  proof -
    let ?lf = "toLowerCase (filename f)"
    let ?n = "pathStripped ?lf"
    have code: "filterFile f \<longleftrightarrow>
        ?n \<notin> set filesToIgnore \<and> extensionOf ?lf \<notin> set extensionsToIgnore \<and> CHR ''.'' \<in> set ?lf"
      by (auto simp: filterFile_whole_path rejectedOnWholePath_def hasNoExtension_def dot_in_toLowerCase)
    show ?thesis
    proof (cases "CHR ''.'' \<in> set ?n")
      case True
      then have "CHR ''.'' \<in> set ?lf"
        using pathStripped_subset [of ?lf] by auto
      with True extensionOf_pathStripped [OF True] show ?thesis
        by (simp add: code rejectedBySpec_def dotOnlyInDirectory_def hasNoExtension_def Let_def)
    next
      case False
      have "extensionOf ?lf \<notin> set extensionsToIgnore" if "CHR ''.'' \<in> set ?lf"
        using slash_in_extensionOf [OF that False] no_slash_in_extensionsToIgnore by blast
      with False show ?thesis
        by (auto simp: code rejectedBySpec_def dotOnlyInDirectory_def hasNoExtension_def Let_def)
    qed
  qed
  have accepted: "filterFile (exampleFile ''.github/README'' d)"
    by (simp add: filter_defs exampleFile_def)
  have rejected: "rejectedBySpec (exampleFile ''.github/README'' d)"
    by (simp add: rejectedBySpec_def pathStripped_def hasNoExtension_def filter_defs
          exampleFile_def)
  have lock: "\<not> filterFile (exampleFile ''package-lock.json'' d)"
    by (simp add: filter_defs exampleFile_def)
  have rust: "filterFile (exampleFile ''main.rs'' d)"
    by (simp add: filter_defs exampleFile_def)
  have readme: "\<not> filterFile (exampleFile ''README'' d)"
    by (simp add: filter_defs exampleFile_def)
  from general accepted rejected lock rust readme show ?thesis
    by blast
qed

theorem filterFile_accepts_dotted_directory_witness:
  "filterFile (exampleFile ''.github/README'' [])
   \<and> rejectedBySpec (exampleFile ''.github/README'' [])
   \<and> dotOnlyInDirectory ''.github/readme''
   \<and> ''readme'' \<notin> set filesToIgnore"
proof -
  have lower: "toLowerCase (filename (exampleFile ''.github/README'' [])) = ''.github/readme''"
    by (simp add: exampleFile_def filter_defs)
  have name: "pathStripped ''.github/readme'' = ''readme''"
    by (simp add: pathStripped_def)
  have listed: "''readme'' \<notin> set filesToIgnore"
    by (simp add: filesToIgnore_def)
  have dot: "dotOnlyInDirectory ''.github/readme''"
    by (simp add: dotOnlyInDirectory_def name)
  from filterFile_accepts_dotted_directory [of "exampleFile ''.github/README'' []" "[]"]
  have "filterFile (exampleFile ''.github/README'' []) =
     (\<not> rejectedBySpec (exampleFile ''.github/README'' [])
      \<or> (dotOnlyInDirectory ''.github/readme'' \<and> ''readme'' \<notin> set filesToIgnore))"
    and "rejectedBySpec (exampleFile ''.github/README'' [])"
    by (simp_all only: lower name)
  with dot listed show ?thesis
    by blast
qed

section \<open>The prompt packer: a file that reaches no group\<close>

text \<open>
  Claim C2. The specification says that the groups hold every filtered file except the
  files that still exceed the budget after their removed lines are stripped. The file
  \<^verbatim>\<open>notes.\<close> passes the filter and fits the budget alone. When it does not fit
  together with \<^verbatim>\<open>main.ts\<close>, \<^verbatim>\<open>groupFilesByExtension\<close> puts it in no bucket, because
  its extension is the empty string, and the only group is that of \<^verbatim>\<open>main.ts\<close>. With
  a budget that admits both files, the two are one group.
\<close>

theorem reviewChanges_groups_loses_trailing_dot_file:
  "filterFile notesFile
   \<and> promptWithinLimit (examplePrompts 12) patch exampleConvoBuilder [notesFile]
   \<and> promptWithinLimit (examplePrompts 12) patch exampleConvoBuilder
       [stripRemovedLines notesFile]
   \<and> groupFilesByExtension [notesFile, mainFile] = [(''ts'', [mainFile])]
   \<and> reviewChanges_groups (examplePrompts 12) [notesFile, mainFile] exampleConvoBuilder
       = [[mainFile]]
   \<and> reviewChanges_groups (examplePrompts 18) [notesFile, mainFile] exampleConvoBuilder
       = [[notesFile, mainFile]]"
proof -
  have accepted: "filterFile notesFile"
    by (simp add: notesFile_def filter_defs exampleFile_def)
  have alone: "promptWithinLimit (examplePrompts 12) patch exampleConvoBuilder [notesFile]"
    by (simp add: notesFile_def example_defs)
  have stripped: "promptWithinLimit (examplePrompts 12) patch exampleConvoBuilder
       [stripRemovedLines notesFile]"
    by (simp add: notesFile_def example_defs stripRemovedLines_def startsWith_def)
  have buckets: "groupFilesByExtension [notesFile, mainFile] = [(''ts'', [mainFile])]"
    by (simp add: notesFile_def mainFile_def groupFilesByExtension_def bucketFile_def
          addToBucket_def filter_defs exampleFile_def)
  have tight: "reviewChanges_groups (examplePrompts 12) [notesFile, mainFile] exampleConvoBuilder
       = [[mainFile]]"
    by (simp add: notesFile_def mainFile_def packer_defs filter_defs example_defs)
  have ample: "reviewChanges_groups (examplePrompts 18) [notesFile, mainFile] exampleConvoBuilder
       = [[notesFile, mainFile]]"
    by (simp add: notesFile_def mainFile_def packer_defs filter_defs example_defs)
  from accepted alone stripped buckets tight ample show ?thesis
    by blast
qed

section \<open>The prompt packer: the files of the groups\<close>

text \<open>
  When no accepted file has a name that ends in a dot, the names of the files in the
  groups are the names of the accepted files without the names of the files dropped as
  permanently oversized, each as often as it occurs in the input; so a file list with
  distinct names puts no file in two groups.
\<close>

lemma bucketFile_cases:
  "bucketFile m f = (if inBucket f then addToBucket (toLowerCase (extensionOf (filename f))) f m else m)"
  by (simp add: bucketFile_def pop_js_split inBucket_def extensionOf_def toLowerCase_def)

lemma mset_update_bucket:
  "map_of m k = Some b \<Longrightarrow>
     mset (concat (map snd (AList.update k v m))) + mset b = mset (concat (map snd m)) + mset v"
  by (induction m) (auto split: if_splits)

lemma mset_addToBucket:
  "mset (concat (map snd (addToBucket ext f m))) = mset (concat (map snd m)) + {#f#}"
proof (cases "map_of m ext")
  case None
  then show ?thesis by (simp add: addToBucket_def)
next
  case (Some b)
  from mset_update_bucket [OF Some, where v = "b @ [f]"] show ?thesis
    by (simp add: addToBucket_def Some)
qed

lemma mset_bucketFile:
  "mset (concat (map snd (bucketFile m f)))
     = mset (concat (map snd m)) + mset (filter inBucket [f])"
  by (simp add: bucketFile_cases [of m f] mset_addToBucket)

lemma mset_foldl_bucketFile:
  "mset (concat (map snd (foldl bucketFile m fs)))
     = mset (concat (map snd m)) + mset (filter inBucket fs)"
proof (induction fs arbitrary: m)
  case Nil
  then show ?case by simp
next
  case (Cons f fs)
  have "mset (concat (map snd (foldl bucketFile m (f # fs))))
          = mset (concat (map snd (bucketFile m f))) + mset (filter inBucket fs)"
    by (simp only: foldl_Cons Cons.IH)
  also have "\<dots> = mset (concat (map snd m)) + mset (filter inBucket [f]) + mset (filter inBucket fs)"
    by (simp only: mset_bucketFile)
  finally show ?case
    by simp
qed

lemma mset_groupFilesByExtension:
  "mset (concat (map snd (groupFilesByExtension files))) = mset (filter inBucket files)"
  unfolding groupFilesByExtension_def by (simp add: mset_foldl_bucketFile)

lemma mset_processExtension: "mset (concat (processExtension w [] b)) = mset b"
  by (simp add: processExtension_eq concat_greedyGroups)

lemma mset_buckets_groups:
  "mset (concat (concat (map (\<lambda>(extension, filesForExt). processExtension w [] filesForExt) bs)))
     = mset (concat (map snd bs))"
  by (induction bs) (auto simp: mset_processExtension)

lemma mset_processWithinLimitFiles:
  assumes "\<And>f. f \<in> set files \<Longrightarrow> inBucket f"
  shows "mset (concat (processWithinLimitFiles P files pb cb)) = mset files"
proof (cases "promptWithinLimit P pb cb files")
  case True
  then show ?thesis by (simp add: processWithinLimitFiles_def)
next
  case False
  from assms have "filter inBucket files = files"
    by (simp add: filter_id_conv)
  with False show ?thesis
    by (simp add: processWithinLimitFiles_def foldl_processExtension mset_buckets_groups
          mset_groupFilesByExtension)
qed

lemma inBucket_stripRemovedLines: "inBucket (stripRemovedLines f) = inBucket f"
  by (simp add: inBucket_def stripRemovedLines_def)

lemma inBucket_cacheTokenLength: "inBucket (cacheTokenLength P f) = inBucket f"
  by (simp add: inBucket_def cacheTokenLength_def)

lemma filename_stripRemovedLines: "filename (stripRemovedLines f) = filename f"
  by (simp add: stripRemovedLines_def)

lemma mset_processOutsideLimitFiles:
  assumes "\<And>f. f \<in> set files \<Longrightarrow> inBucket f"
  shows "mset (concat (processOutsideLimitFiles P files pb cb))
     = mset (filter (\<lambda>f. promptWithinLimit P pb cb (map stripRemovedLines files)
                          \<or> promptWithinLimit P pb cb [f])
              (map stripRemovedLines files))"
proof -
  let ?files' = "map stripRemovedLines files"
  let ?w = "promptWithinLimit P pb cb"
  let ?within = "filter (\<lambda>file. ?w [file]) ?files'"
  show ?thesis
  proof (cases "files = [] \<or> ?w ?files'")
    case True
    then show ?thesis
      by (auto simp: processOutsideLimitFiles_def Let_def)
  next
    case False
    have "inBucket f" if "f \<in> set ?within" for f
      using that assms by (auto simp: inBucket_stripRemovedLines)
    then have "mset (concat (processWithinLimitFiles P ?within pb cb)) = mset ?within"
      by (rule mset_processWithinLimitFiles)
    with False show ?thesis
      by (simp add: processOutsideLimitFiles_def Let_def)
  qed
qed

lemma mset_filter_split:
  "mset (map g (filter A F)) + mset (map g (filter (\<lambda>f. \<not> A f \<and> B f) F))
     = mset (map g (filter (\<lambda>f. A f \<or> B f) F))"
  by (induction F) auto

lemma kept_names:
  "mset (map filename (filter (\<lambda>f. w [f]) F))
     + mset (map filename (filter (\<lambda>f. c \<or> w [stripRemovedLines f]) (filter (\<lambda>f. \<not> w [f]) F)))
   = mset (map filename (filter (\<lambda>f. \<not> (\<not> w [f] \<and> \<not> c \<and> \<not> w [stripRemovedLines f])) F))"
proof -
  have "filter (\<lambda>f. c \<or> w [stripRemovedLines f]) (filter (\<lambda>f. \<not> w [f]) F)
          = filter (\<lambda>f. \<not> w [f] \<and> (c \<or> w [stripRemovedLines f])) F"
    by (simp add: conj_commute)
  moreover have "(\<lambda>f. \<not> (\<not> w [f] \<and> \<not> c \<and> \<not> w [stripRemovedLines f]))
                   = (\<lambda>f. w [f] \<or> (c \<or> w [stripRemovedLines f]))"
    by auto
  ultimately show ?thesis
    by (simp only: mset_filter_split)
qed

lemma reviewChanges_groups_partition:
  assumes "\<And>f. f \<in> set files \<Longrightarrow> filterFile f \<Longrightarrow> extensionOf (filename f) \<noteq> []"
  shows "mset (map filename (concat (reviewChanges_groups P files cb)))
           = mset (map filename
               (filter (\<lambda>f. \<not> droppedAsOversized P cb
                                 (map (cacheTokenLength P) (filter filterFile files)) f)
                  (map (cacheTokenLength P) (filter filterFile files))))"
proof -
  let ?F = "map (cacheTokenLength P) (filter filterFile files)"
  let ?w = "promptWithinLimit P (buildPatchPrompt P) cb"
  let ?W = "filter (\<lambda>f. ?w [f]) ?F"
  let ?O = "filter (\<lambda>f. \<not> ?w [f]) ?F"
  let ?O' = "map stripRemovedLines ?O"
  have bucket: "inBucket f" if "f \<in> set ?F" for f
  proof -
    from that obtain g where "g \<in> set files" "filterFile g" "f = cacheTokenLength P g"
      by auto
    with assms [of g] show ?thesis
      by (simp add: inBucket_cacheTokenLength) (simp add: inBucket_def)
  qed
  have A: "mset (concat (processWithinLimitFiles P ?W (buildPatchPrompt P) cb)) = mset ?W"
    by (rule mset_processWithinLimitFiles) (use bucket in auto)
  have B: "mset (concat (processOutsideLimitFiles P ?O (buildPatchPrompt P) cb))
             = mset (filter (\<lambda>f. ?w ?O' \<or> ?w [f]) ?O')"
    by (rule mset_processOutsideLimitFiles) (use bucket in auto)
  have names: "map filename (filter (\<lambda>f. ?w ?O' \<or> ?w [f]) ?O')
                 = map filename (filter (\<lambda>f. ?w ?O' \<or> ?w [stripRemovedLines f]) ?O)"
    by (simp add: filter_map o_def filename_stripRemovedLines)
  have groups: "concat (reviewChanges_groups P files cb)
                  = concat (processWithinLimitFiles P ?W (buildPatchPrompt P) cb)
                    @ concat (processOutsideLimitFiles P ?O (buildPatchPrompt P) cb)"
    by (simp add: reviewChanges_groups_def Let_def)
  have "mset (map filename (concat (reviewChanges_groups P files cb)))
          = image_mset filename (mset (concat (processWithinLimitFiles P ?W (buildPatchPrompt P) cb)))
            + image_mset filename (mset (concat (processOutsideLimitFiles P ?O (buildPatchPrompt P) cb)))"
    by (simp only: groups map_append mset_append mset_map)
  also have "\<dots> = mset (map filename ?W)
            + mset (map filename (filter (\<lambda>f. ?w ?O' \<or> ?w [f]) ?O'))"
    by (simp only: A B mset_map)
  also have "\<dots> = mset (map filename ?W)
            + mset (map filename (filter (\<lambda>f. ?w ?O' \<or> ?w [stripRemovedLines f]) ?O))"
    by (simp only: names)
  also have "\<dots> = mset (map filename (filter (\<lambda>f. \<not> (\<not> ?w [f] \<and> \<not> ?w ?O' \<and> \<not> ?w [stripRemovedLines f])) ?F))"
    by (rule kept_names)
  finally show ?thesis
    by (simp add: droppedAsOversized_def Let_def)
qed

lemma reviewChanges_groups_distinct:
  assumes "\<And>f. f \<in> set files \<Longrightarrow> filterFile f \<Longrightarrow> extensionOf (filename f) \<noteq> []"
    and "distinct (map filename files)"
  shows "distinct (map filename (concat (reviewChanges_groups P files cb)))"
proof -
  let ?F = "map (cacheTokenLength P) (filter filterFile files)"
  have "map filename ?F = map filename (filter filterFile files)"
    by (simp add: cacheTokenLength_def)
  moreover from assms(2) have "distinct (map filename (filter filterFile files))"
    by (rule distinct_map_filter)
  ultimately have "distinct (map filename ?F)"
    by (simp only:)
  then have "distinct (map filename (filter (\<lambda>f. \<not> droppedAsOversized P cb ?F f) ?F))"
    by (rule distinct_map_filter)
  then show ?thesis
    by (metis reviewChanges_groups_partition [OF assms(1)] mset_eq_imp_distinct_iff)
qed

section \<open>The retry orchestration\<close>

lemma promiseAll_map_Inr: "promiseAll (map Inr ys) = Inr ys"
  by (induction ys) auto

lemma promiseAll_Inr: "promiseAll xs = Inr ys \<longleftrightarrow> xs = map Inr ys"
proof
  show "promiseAll xs = Inr ys \<Longrightarrow> xs = map Inr ys"
  proof (induction xs arbitrary: ys)
    case Nil
    then show ?case by simp
  next
    case (Cons a xs)
    then show ?case
      by (cases a) (auto split: sum.splits)
  qed
  show "xs = map Inr ys \<Longrightarrow> promiseAll xs = Inr ys"
    by (simp add: promiseAll_map_Inr)
qed

lemma filterFile_cacheTokenLength: "filterFile (cacheTokenLength P f) = filterFile f"
  by (simp add: filterFile_def cacheTokenLength_def)

lemma cacheTokenLength_idem:
  assumes "\<And>f n. buildPatchPrompt P (f\<lparr>patchTokenLength := n\<rparr>) = buildPatchPrompt P f"
  shows "cacheTokenLength P (cacheTokenLength P f) = cacheTokenLength P f"
  using assms by (simp add: cacheTokenLength_def)

lemma filtered_after_review:
  assumes "\<And>f n. buildPatchPrompt P (f\<lparr>patchTokenLength := n\<rparr>) = buildPatchPrompt P f"
  shows "map (cacheTokenLength P) (filter filterFile (filesAfterReview P files))
           = map (cacheTokenLength P) (filter filterFile files)"
proof (induction files)
  case Nil
  then show ?case by (simp add: filesAfterReview_def)
next
  case (Cons f files)
  then show ?case
    using cacheTokenLength_idem [OF assms]
    by (simp add: filesAfterReview_def filterFile_cacheTokenLength)
qed

lemma filesAfterReview_idem:
  assumes "\<And>f n. buildPatchPrompt P (f\<lparr>patchTokenLength := n\<rparr>) = buildPatchPrompt P f"
  shows "filesAfterReview P (filesAfterReview P files) = filesAfterReview P files"
  using cacheTokenLength_idem [OF assms]
  by (simp add: filesAfterReview_def filterFile_cacheTokenLength)

lemma reviewChanges_groups_after_review:
  assumes "\<And>f n. buildPatchPrompt P (f\<lparr>patchTokenLength := n\<rparr>) = buildPatchPrompt P f"
  shows "reviewChanges_groups P (filesAfterReview P files) cb = reviewChanges_groups P files cb"
  unfolding reviewChanges_groups_def by (simp only: filtered_after_review [OF assms])

lemma reviewChanges_after_review:
  assumes "\<And>f n. buildPatchPrompt P (f\<lparr>patchTokenLength := n\<rparr>) = buildPatchPrompt P f"
  shows "reviewChanges P llm (filesAfterReview P files) cb rb = reviewChanges P llm files cb rb"
  unfolding reviewChanges_def
  by (simp only: reviewChanges_groups_after_review [OF assms] filesAfterReview_idem [OF assms])

lemma fst_reviewChanges: "fst (reviewChanges P llm files cb rb) = filesAfterReview P files"
  by (simp add: reviewChanges_def Let_def)

lemma reviewChangesRetry_after_review:
  assumes "\<And>f n. buildPatchPrompt P (f\<lparr>patchTokenLength := n\<rparr>) = buildPatchPrompt P f"
  shows "reviewChangesRetry P llm (filesAfterReview P files) builders
           = reviewChangesRetry P llm files builders"
proof (cases builders)
  case Nil
  then show ?thesis by simp
next
  case (Cons b bs)
  then show ?thesis
    by (simp add: reviewChanges_after_review [OF assms])
qed

lemma reviewChangesRetry_Cons:
  assumes "\<And>f n. buildPatchPrompt P (f\<lparr>patchTokenLength := n\<rparr>) = buildPatchPrompt P f"
  shows "reviewChangesRetry P llm files (b # bs) =
           (case strategyOutcome P llm files b of
              Inr response \<Rightarrow> Inr response
            | Inl exc \<Rightarrow> reviewChangesRetry P llm files bs)"
proof -
  obtain fa out where run: "reviewChanges P llm files (convoBuilder b) (responseBuilder b) = (fa, out)"
    by (cases "reviewChanges P llm files (convoBuilder b) (responseBuilder b)")
  with fst_reviewChanges [of P llm files "convoBuilder b" "responseBuilder b"]
  have fa: "fa = filesAfterReview P files"
    by simp
  show ?thesis
    using run reviewChangesRetry_after_review [OF assms, of llm files bs]
    by (simp add: strategyOutcome_def fa split: sum.splits)
qed

lemma strategyOutcome_Inr:
  "strategyOutcome P llm files b = Inr response \<longleftrightarrow>
     (\<exists>feedbacks.
        map (\<lambda>patchGroup. reviewFiles llm patchGroup (buildPatchPrompt P) (convoBuilder b))
          (reviewChanges_groups P files (convoBuilder b)) = map Inr feedbacks
        \<and> responseBuilder b feedbacks = Inr response)"
  by (auto simp: strategyOutcome_def reviewChanges_def Let_def promiseAll_Inr promiseAll_map_Inr
        split: sum.splits)

text \<open>
  Claim C3. Let the patch renderer not read the cached token length, so that a run
  leaves the files as the next run needs them. Then for every file list and every list
  of strategies, \<^verbatim>\<open>reviewChangesRetry\<close> returns the outcome, on the given files, of the
  first strategy whose run on these files does not throw, and throws the error
  \<^verbatim>\<open>All convoBuilders failed.\<close> when every strategy throws. A strategy succeeds
  exactly when the model call of every packed group succeeds and the response builder
  accepts the feedbacks; so a failure for any group, or in the response builder, passes
  control to the next strategy.
\<close>

theorem reviewChangesRetry_first_success:
  assumes "\<And>f n. buildPatchPrompt P (f\<lparr>patchTokenLength := n\<rparr>) = buildPatchPrompt P f"
  shows
    "reviewChangesRetry P llm files builders =
       (case find (\<lambda>b. \<not> isl (strategyOutcome P llm files b)) builders of
          None \<Rightarrow> Inl (Error ''All convoBuilders failed.'')
        | Some b \<Rightarrow> strategyOutcome P llm files b)
     \<and> (strategyOutcome P llm files builder = Inr response \<longleftrightarrow>
          (\<exists>feedbacks.
             map (\<lambda>patchGroup.
                    reviewFiles llm patchGroup (buildPatchPrompt P) (convoBuilder builder))
               (reviewChanges_groups P files (convoBuilder builder)) = map Inr feedbacks
             \<and> responseBuilder builder feedbacks = Inr response))"
proof -
  have "reviewChangesRetry P llm files builders =
       (case find (\<lambda>b. \<not> isl (strategyOutcome P llm files b)) builders of
          None \<Rightarrow> Inl (Error ''All convoBuilders failed.'')
        | Some b \<Rightarrow> strategyOutcome P llm files b)"
  proof (induction builders)
    case Nil
    then show ?case by simp
  next
    case (Cons b bs)
    then show ?case
      by (simp only: reviewChangesRetry_Cons [OF assms]) (auto split: sum.splits)
  qed
  then show ?thesis
    by (simp only: strategyOutcome_Inr simp_thms)
qed

theorem reviewChangesRetry_first_success_witness:
  "(\<forall>f n. buildPatchPrompt (examplePrompts 18) (f\<lparr>patchTokenLength := n\<rparr>)
            = buildPatchPrompt (examplePrompts 18) f)
   \<and> isl (strategyOutcome (examplePrompts 18) exampleChat [tsA, tsB, tsC] (exampleBuilders ! 0))
   \<and> reviewChangesRetry (examplePrompts 18) exampleChat [tsA, tsB, tsC] exampleBuilders
       = Inr \<lparr>responseComment = ''Looks fine.\<newline>Looks fine.'', structuredComments = []\<rparr>"
proof -
  let ?xml = "\<lparr>convoBuilder = exampleConvoBuilder, responseBuilder = failingResponseBuilder\<rparr>"
  let ?basic = "\<lparr>convoBuilder = exampleConvoBuilder, responseBuilder = basicResponseBuilder\<rparr>"
  let ?run = "strategyOutcome (examplePrompts 18) exampleChat [tsA, tsB, tsC]"
  have renderer: "buildPatchPrompt (examplePrompts 18) (f\<lparr>patchTokenLength := n\<rparr>)
            = buildPatchPrompt (examplePrompts 18) f" for f n
    by (simp add: examplePrompts_def)
  have run: "?run b = responseBuilder b [''Looks fine.'', ''Looks fine.'']"
    if "convoBuilder b = exampleConvoBuilder" for b
    using that
    by (simp add: strategyOutcome_def reviewChanges_def example_groups reviewFiles_def
          reviewDiff_def exampleChat_def split: sum.splits)
  have first: "?run ?xml = Inl (Error ''Non-whitespace before first tag.'')"
    by (simp add: run failingResponseBuilder_def)
  have second: "?run ?basic
                  = Inr \<lparr>responseComment = ''Looks fine.\<newline>Looks fine.'', structuredComments = []\<rparr>"
    by (simp add: run basicResponseBuilder_def newline_def)
  have found: "find (\<lambda>b. \<not> isl (?run b)) [?xml, ?basic] = Some ?basic"
    by (simp add: first second)
  have "reviewChangesRetry (examplePrompts 18) exampleChat [tsA, tsB, tsC] [?xml, ?basic] =
       (case find (\<lambda>b. \<not> isl (?run b)) [?xml, ?basic] of
          None \<Rightarrow> Inl (Error ''All convoBuilders failed.'')
        | Some b \<Rightarrow> ?run b)"
    using reviewChangesRetry_first_success
            [of "examplePrompts 18" exampleChat "[tsA, tsB, tsC]" "[?xml, ?basic]", OF renderer]
    by (rule conjunct1)
  then have "reviewChangesRetry (examplePrompts 18) exampleChat [tsA, tsB, tsC] [?xml, ?basic]
       = Inr \<lparr>responseComment = ''Looks fine.\<newline>Looks fine.'', structuredComments = []\<rparr>"
    by (simp only: found option.case second)
  moreover have "isl (?run ([?xml, ?basic] ! 0))"
    by (simp add: first)
  ultimately show ?thesis
    using renderer by (simp only: exampleBuilders_def simp_thms)
qed

section \<open>Deduplication\<close>

lemma dedup_alt: "dedupSuggestions ident xs = map snd (suggestionsMap ident [] xs)"
  by (simp add: dedupSuggestions_def suggestionsMap_def)

lemma list_all_update:
  "list_all Q m \<Longrightarrow> Q (k, v) \<Longrightarrow> list_all Q (AList.update k v m)"
  by (induction m) auto

lemma keyed_update: "keyed ident m \<Longrightarrow> keyed ident (AList.update (ident s) s m)"
  unfolding keyed_def
  by (simp add: distinct_update list_all_update)

lemma find_append_cases:
  "find Q (xs @ ys) = (case find Q xs of None \<Rightarrow> find Q ys | Some x \<Rightarrow> Some x)"
  by (induction xs) auto

lemma keyed_identities: "keyed ident m \<Longrightarrow> map ident (map snd m) = map fst m"
  by (induction m) (auto simp: keyed_def)

lemma keyed_suggestionsMap: "keyed ident m \<Longrightarrow> keyed ident (suggestionsMap ident m xs)"
  unfolding suggestionsMap_def
  by (induction xs arbitrary: m) (auto simp: keyed_update)

lemma map_of_suggestionsMap:
  "map_of (suggestionsMap ident m xs) k =
     (case find (\<lambda>s. ident s = k) (rev xs) of None \<Rightarrow> map_of m k | Some s \<Rightarrow> Some s)"
  unfolding suggestionsMap_def
proof (induction xs arbitrary: m)
  case Nil
  then show ?case by simp
next
  case (Cons x xs)
  show ?case
    by (simp add: Cons.IH update_conv' find_append_cases split: option.splits)
qed

lemma filter_keyed:
  "keyed ident m \<Longrightarrow>
     filter (\<lambda>s. ident s = k) (map snd m) = (case map_of m k of None \<Rightarrow> [] | Some s \<Rightarrow> [s])"
proof (induction m)
  case Nil
  then show ?case by simp
next
  case (Cons p m)
  obtain k' v where p: "p = (k', v)" by (cases p)
  from Cons.prems p have kv: "k' = ident v" and dist: "k' \<notin> fst ` set m" and keyed: "keyed ident m"
    by (auto simp: keyed_def)
  show ?case
  proof (cases "k' = k")
    case True
    with dist have "map_of m k = None"
      by (simp add: map_of_eq_None_iff)
    with Cons.IH [OF keyed] True p kv show ?thesis
      by simp
  next
    case False
    with Cons.IH [OF keyed] p kv show ?thesis
      by auto
  qed
qed

lemma update_new_key: "k \<notin> fst ` set al \<Longrightarrow> AList.update k v al = al @ [(k, v)]"
  by (induction al) auto

lemma suggestionsMap_of_keyed:
  "keyed ident (m0 @ m) \<Longrightarrow> suggestionsMap ident m0 (map snd m) = m0 @ m"
proof (induction m arbitrary: m0)
  case Nil
  then show ?case by (simp add: suggestionsMap_def)
next
  case (Cons p m)
  obtain k v where p: "p = (k, v)" by (cases p)
  from Cons.prems p have kv: "k = ident v" and new: "k \<notin> fst ` set m0"
    by (auto simp: keyed_def)
  from Cons.prems have "keyed ident ((m0 @ [p]) @ m)" by simp
  from Cons.IH [OF this] have "suggestionsMap ident (m0 @ [p]) (map snd m) = m0 @ p # m"
    by simp
  moreover have "AList.update (ident v) v m0 = m0 @ [p]"
    using update_new_key [OF new] kv p by simp
  ultimately show ?case
    using p by (simp add: suggestionsMap_def)
qed

lemma keyed_Nil: "keyed ident []"
  by (simp add: keyed_def)

text \<open>
  Claim C4. For every list of suggestions and every way of combining filename, comment
  and code into an identity: deduplicating the deduplicated list changes nothing; the
  suggestions of the result have pairwise different identities; and for each identity
  the result holds exactly the last suggestion of the input with that identity (none if
  the input has none). For two suggestions this says that they collapse to the second
  when their identities are equal.
\<close>

theorem dedupSuggestions_idempotent_last_wins:
  "dedupSuggestions (identity combine) (dedupSuggestions (identity combine) suggestions)
     = dedupSuggestions (identity combine) suggestions
   \<and> distinct (map (identity combine) (dedupSuggestions (identity combine) suggestions))
   \<and> (\<forall>k. filter (\<lambda>s. identity combine s = k) (dedupSuggestions (identity combine) suggestions)
           = (case find (\<lambda>s. identity combine s = k) (rev suggestions) of
                None \<Rightarrow> [] | Some s \<Rightarrow> [s]))
   \<and> dedupSuggestions (identity combine) [a, b]
       = (if identity combine a = identity combine b then [b] else [a, b])"
proof -
  let ?id = "identity combine"
  let ?m = "suggestionsMap ?id [] suggestions"
  have keyed: "keyed ?id ?m"
    by (rule keyed_suggestionsMap [OF keyed_Nil])
  then have "suggestionsMap ?id [] (map snd ?m) = ?m"
    using suggestionsMap_of_keyed [of ?id "[]" ?m] by simp
  then have idem: "dedupSuggestions ?id (dedupSuggestions ?id suggestions) = dedupSuggestions ?id suggestions"
    by (simp add: dedup_alt)
  have ids: "map ?id (map snd ?m) = map fst ?m"
    using keyed by (rule keyed_identities)
  from keyed have "distinct (map fst ?m)"
    by (simp add: keyed_def)
  then have dist: "distinct (map ?id (dedupSuggestions ?id suggestions))"
    by (simp only: dedup_alt ids)
  have last: "filter (\<lambda>s. ?id s = k) (dedupSuggestions ?id suggestions)
           = (case find (\<lambda>s. ?id s = k) (rev suggestions) of None \<Rightarrow> [] | Some s \<Rightarrow> [s])" for k
    by (simp add: dedup_alt filter_keyed [OF keyed] map_of_suggestionsMap split: option.splits)
  have two: "dedupSuggestions ?id [a, b] = (if ?id a = ?id b then [b] else [a, b])"
    by (simp add: dedupSuggestions_def)
  from idem dist last two show ?thesis by blast
qed

section \<open>Trimming the code of a suggestion\<close>

lemma set_trim: "set (trim s) \<subseteq> set s"
  unfolding trim_def by (auto dest!: set_dropWhileD)

lemma dropWhile_rev_split:
  "d = rev (dropWhile Q (rev d)) @ rev (takeWhile Q (rev d))"
proof -
  have "rev (takeWhile Q (rev d) @ dropWhile Q (rev d)) = d"
    by (simp only: takeWhile_dropWhile_id rev_rev_ident)
  then show ?thesis
    by (simp only: rev_append)
qed

lemma trim_decompose:
  "s = takeWhile isWhiteSpace s @ trim s
         @ rev (takeWhile isWhiteSpace (rev (dropWhile isWhiteSpace s)))"
proof -
  let ?d = "dropWhile isWhiteSpace s"
  have "?d = trim s @ rev (takeWhile isWhiteSpace (rev ?d))"
    unfolding trim_def by (rule dropWhile_rev_split)
  moreover have "s = takeWhile isWhiteSpace s @ ?d"
    by simp
  ultimately show ?thesis
    by simp
qed

lemma trim_ends:
  assumes "trim s \<noteq> []"
  shows "\<not> isWhiteSpace (hd (trim s))" and "\<not> isWhiteSpace (last (trim s))"
proof -
  let ?d = "dropWhile isWhiteSpace s"
  let ?e = "dropWhile isWhiteSpace (rev ?d)"
  from assms have e: "?e \<noteq> []"
    by (simp add: trim_def)
  then have "\<not> isWhiteSpace (hd ?e)"
    by (rule hd_dropWhile)
  with e show "\<not> isWhiteSpace (last (trim s))"
    by (simp add: trim_def last_rev)
  have d: "?d \<noteq> []"
  proof
    assume "?d = []"
    then have "rev ?d = []"
      by (simp only: rev.simps)
    then have "?e = []"
      by (simp only: dropWhile.simps)
    with e show False by contradiction
  qed
  then have nd: "\<not> isWhiteSpace (hd ?d)"
    by (rule hd_dropWhile)
  have "?d = trim s @ rev (takeWhile isWhiteSpace (rev ?d))"
    unfolding trim_def by (rule dropWhile_rev_split)
  then have "hd ?d = hd (trim s @ rev (takeWhile isWhiteSpace (rev ?d)))"
    by (rule arg_cong)
  with assms have "hd ?d = hd (trim s)"
    by simp
  with nd show "\<not> isWhiteSpace (hd (trim s))"
    by simp
qed

lemma trim_sandwich:
  assumes "\<forall>c \<in> set u. isWhiteSpace c" and "\<forall>c \<in> set v. isWhiteSpace c"
    and "m \<noteq> []" and "\<not> isWhiteSpace (hd m)" and "\<not> isWhiteSpace (last m)"
  shows "trim (u @ m @ v) = m"
proof -
  from assms(1,3,4) have front: "dropWhile isWhiteSpace (u @ m @ v) = m @ v"
    by (cases m) (auto simp: dropWhile_append)
  from assms(2) have "\<forall>c \<in> set (rev v). isWhiteSpace c"
    by simp
  with assms(3,5) have "dropWhile isWhiteSpace (rev v @ rev m) = rev m"
    by (cases "rev m") (auto simp: dropWhile_append last_rev [symmetric] simp del: set_rev dest: arg_cong [where f = hd])
  with front show ?thesis
    by (simp add: trim_def)
qed

lemma trim_idem: "trim (trim s) = trim s"
proof (cases "trim s = []")
  case True
  have "trim [] = []"
    by (simp add: trim_def)
  with True show ?thesis
    by simp
next
  case False
  from trim_sandwich [of "[]" "[]" "trim s"] trim_ends [OF False] False show ?thesis
    by simp
qed

lemma trimCodeBlock_lines:
  "js_split newline (trimCodeBlock c)
     = (js_split newline (trim c))
         [0 := trim (js_split newline (trim c) ! 0),
          length (js_split newline (trim c)) - 1 :=
            trim ((js_split newline (trim c))[0 := trim (js_split newline (trim c) ! 0)]
                    ! (length (js_split newline (trim c)) - 1))]"
proof -
  let ?L = "js_split newline (trim c)"
  let ?L1 = "?L[0 := trim (?L ! 0)]"
  let ?L2 = "?L1[length ?L1 - 1 := trim (?L1 ! (length ?L1 - 1))]"
  have ne: "?L2 \<noteq> []"
    using js_split_not_Nil [of newline "trim c"] by simp
  have L: "newline \<notin> set l" if "l \<in> set ?L" for l
    using that by (rule js_split_no_separator)
  have upd: "newline \<notin> set l"
    if "l \<in> set (xs[n := trim (xs ! n)])" "\<And>x. x \<in> set xs \<Longrightarrow> newline \<notin> set x" "n < length xs"
    for l and xs :: "string list" and n
  proof -
    from that(1) have "l = trim (xs ! n) \<or> l \<in> set xs"
      using set_update_subset_insert [of xs n "trim (xs ! n)"] by auto
    moreover from that(2,3) have "newline \<notin> set (xs ! n)"
      by simp
    then have "newline \<notin> set (trim (xs ! n))"
      using set_trim [of "xs ! n"] by auto
    ultimately show ?thesis
      using that(2) by auto
  qed
  have pos: "0 < length ?L"
    using js_split_not_Nil [of newline "trim c"] by simp
  have L1: "newline \<notin> set l" if "l \<in> set ?L1" for l
    using that L pos by (rule upd)
  have pos1: "length ?L1 - 1 < length ?L1"
    using pos by simp
  have L2: "newline \<notin> set l" if "l \<in> set ?L2" for l
    using that L1 pos1 by (rule upd)
  have "js_split newline (js_join [newline] ?L2) = ?L2"
    by (rule js_split_js_join [OF ne L2])
  then show ?thesis
    by (simp add: trimCodeBlock_def Let_def)
qed

text \<open>
  Claim C10, as the code has it. When a raw suggestion is converted, its code text is
  first trimmed as a whole, which removes the blank lines and the white space around the
  code; the result is split into lines, and the first and the last of these lines are
  trimmed. The code of the suggestion has as many lines as the trimmed text, every line
  of the trimmed text but the first and the last is kept as it is, and the first and
  the last are trimmed.
\<close>

theorem convertRawSuggestion_keeps_interior_lines:
  assumes "convertRawSuggestion raw = Inr s"
  shows "\<exists>c. rawCode raw = Some c
     \<and> length (js_split newline (code s)) = length (js_split newline (trim c))
     \<and> (\<forall>i. 0 < i \<and> i < length (js_split newline (trim c)) - 1
           \<longrightarrow> js_split newline (code s) ! i = js_split newline (trim c) ! i)
     \<and> hd (js_split newline (code s)) = trim (hd (js_split newline (trim c)))
     \<and> last (js_split newline (code s)) = trim (last (js_split newline (trim c)))"
proof -
  from assms obtain c where c: "rawCode raw = Some c" and code: "code s = trimCodeBlock c"
    by (auto simp: convertRawSuggestion_def split: option.splits)
  let ?L = "js_split newline (trim c)"
  have ne: "?L \<noteq> []" by (rule js_split_not_Nil)
  have len: "length (js_split newline (code s)) = length ?L"
    by (simp add: code trimCodeBlock_lines)
  have mid: "js_split newline (code s) ! i = ?L ! i" if "0 < i" "i < length ?L - 1" for i
    using that by (simp add: code trimCodeBlock_lines)
  have first: "hd (js_split newline (code s)) = trim (hd ?L)"
  proof (cases "length ?L = 1")
    case True
    then show ?thesis
      using ne by (simp add: code trimCodeBlock_lines hd_conv_nth trim_idem)
  next
    case False
    with ne have "1 < length ?L" by (cases ?L) auto
    then show ?thesis
      using ne by (simp add: code trimCodeBlock_lines hd_conv_nth)
  qed
  have last: "last (js_split newline (code s)) = trim (last ?L)"
  proof (cases "length ?L = 1")
    case True
    then show ?thesis
      using ne by (simp add: code trimCodeBlock_lines last_conv_nth trim_idem)
  next
    case False
    with ne have "1 < length ?L" by (cases ?L) auto
    then show ?thesis
      using ne by (simp add: code trimCodeBlock_lines last_conv_nth)
  qed
  from c len mid first last show ?thesis by blast
qed

theorem convertRawSuggestion_keeps_interior_lines_witness:
  "convertRawSuggestion exampleRawSuggestion
     = Inr \<lparr>describe = ''d'', suggestionType = ''t'', comment = ''m'',
            code = ''a\<newline>    b\<newline>c'', suggestionFilename = ''f.py''\<rparr>
   \<and> js_split newline (trim ''\<newline>  a\<newline>    b\<newline>  c\<newline>'') = [''a'', ''    b'', ''  c'']
   \<and> js_split newline ''a\<newline>    b\<newline>c'' ! 1 = ''    b''"
proof -
  have conv: "convertRawSuggestion exampleRawSuggestion
     = Inr \<lparr>describe = ''d'', suggestionType = ''t'', comment = ''m'',
            code = ''a\<newline>    b\<newline>c'', suggestionFilename = ''f.py''\<rparr>"
    by (simp add: convertRawSuggestion_def exampleRawSuggestion_def trimCodeBlock_def trim_def
          isWhiteSpace_def newline_def)
  have trimmed:
    "js_split newline (trim ''\<newline>  a\<newline>    b\<newline>  c\<newline>'') = [''a'', ''    b'', ''  c'']"
    by (simp add: trim_def isWhiteSpace_def newline_def)
  from convertRawSuggestion_keeps_interior_lines [OF conv]
  have "js_split newline ''a\<newline>    b\<newline>c'' ! 1
          = js_split newline (trim ''\<newline>  a\<newline>    b\<newline>  c\<newline>'') ! 1"
    by (simp add: exampleRawSuggestion_def trimmed)
  with conv trimmed show ?thesis
    by simp
qed

text \<open>
  The claim as the specification states it fails: the code text
  \<^verbatim>\<open>"\n  a\n    b\n  c\n"\<close> has five lines, its second line \<^verbatim>\<open>"  a"\<close> is an interior
  line, and no line of the converted code is \<^verbatim>\<open>"  a"\<close>: the indentation of that line is
  lost.
\<close>

theorem convertRawSuggestion_changes_interior_line:
  "js_split newline ''\<newline>  a\<newline>    b\<newline>  c\<newline>'' = ['''', ''  a'', ''    b'', ''  c'', '''']
   \<and> convertRawSuggestion exampleRawSuggestion
       = Inr \<lparr>describe = ''d'', suggestionType = ''t'', comment = ''m'',
              code = ''a\<newline>    b\<newline>c'', suggestionFilename = ''f.py''\<rparr>
   \<and> ''  a'' \<notin> set (js_split newline ''a\<newline>    b\<newline>c'')"
  by (simp add: convertRawSuggestion_def exampleRawSuggestion_def trimCodeBlock_def trim_def
        isWhiteSpace_def newline_def)

section \<open>The inline fix generator\<close>

lemma js_join_prefix: "js_join sep ((a @ b) # R) = a @ js_join sep (b # R)"
  by (cases R) auto

lemma indent_lines_chars:
  "js_join [newline] (map (\<lambda>line. ind @ line) (js_split newline s)) = ind @ indentChars ind s"
proof (induction s)
  case Nil
  then show ?case by (simp add: indentChars_def)
next
  case (Cons x xs)
  obtain l ls where split: "js_split newline xs = l # ls"
    using js_split_not_Nil [of newline xs] by (cases "js_split newline xs") auto
  show ?case
  proof (cases "x = newline")
    case True
    then show ?thesis
      using Cons.IH split by (simp add: indentChars_def)
  next
    case False
    let ?R = "map (\<lambda>line. ind @ line) ls"
    from Cons.IH split have "js_join [newline] ((ind @ l) # ?R) = ind @ indentChars ind xs"
      by simp
    then have "js_join [newline] (l # ?R) = indentChars ind xs"
      by (simp only: js_join_prefix same_append_eq)
    moreover have "js_join [newline] ((ind @ x # l) # ?R) = ind @ [x] @ js_join [newline] (l # ?R)"
      using js_join_prefix [of "[newline]" "ind @ [x]" l ?R] by simp
    ultimately show ?thesis
      using False split by (simp add: indentChars_def)
  qed
qed

lemma indentChars_append: "indentChars ind (a @ b) = indentChars ind a @ indentChars ind b"
  by (simp add: indentChars_def)

lemma indentChars_no_newline: "newline \<notin> set s \<Longrightarrow> indentChars ind s = s"
  unfolding indentChars_def by (induction s) auto

lemma indentChars_white:
  "\<forall>c \<in> set ind. isWhiteSpace c \<Longrightarrow> \<forall>c \<in> set s. isWhiteSpace c
     \<Longrightarrow> \<forall>c \<in> set (indentChars ind s). isWhiteSpace c"
  unfolding indentChars_def by (auto simp: isWhiteSpace_def newline_def)

lemma trim_indented:
  assumes ind: "\<forall>c \<in> set ind. isWhiteSpace c"
    and one: "newline \<notin> set (trim s)" and ne: "trim s \<noteq> []"
  shows "trim (js_join [newline] (map (\<lambda>line. ind @ line) (js_split newline s))) = trim s"
proof -
  let ?a = "takeWhile isWhiteSpace s"
  let ?b = "rev (takeWhile isWhiteSpace (rev (dropWhile isWhiteSpace s)))"
  have a: "\<forall>c \<in> set ?a. isWhiteSpace c"
    by (auto dest: set_takeWhileD)
  have b: "\<forall>c \<in> set ?b. isWhiteSpace c"
    by (auto dest: set_takeWhileD)
  have "indentChars ind s = indentChars ind (?a @ trim s @ ?b)"
    using trim_decompose [of s] by simp
  then have "indentChars ind s = indentChars ind ?a @ trim s @ indentChars ind ?b"
    by (simp only: indentChars_append indentChars_no_newline [OF one])
  then have "js_join [newline] (map (\<lambda>line. ind @ line) (js_split newline s))
               = (ind @ indentChars ind ?a) @ trim s @ indentChars ind ?b"
    by (simp only: indent_lines_chars append_assoc)
  moreover have "\<forall>c \<in> set (ind @ indentChars ind ?a). isWhiteSpace c"
    using ind indentChars_white [OF ind a] by auto
  moreover note indentChars_white [OF ind b]
  ultimately show ?thesis
    using trim_sandwich [of "ind @ indentChars ind ?a" "indentChars ind ?b" "trim s"]
      trim_ends [OF ne] ne
    by simp
qed

lemma example_contents:
  "js_split newline ''def f():\<newline>    pass\<newline>'' = [''def f():'', ''    pass'', '''']"
  by (simp add: newline_def)

lemma four_spaces_white: "\<forall>x \<in> set ''    ''. isWhiteSpace x"
  by (simp add: isWhiteSpace_def)

lemma trimmed_pass: "trim c = ''pass'' \<Longrightarrow> newline \<notin> set (trim c) \<and> trim c \<noteq> []"
  by (simp add: newline_def)

lemma indentation_of_second_line: "takeWhile isWhiteSpace ''    pass'' = ''    ''"
  by (simp add: isWhiteSpace_def)

lemma indentCodeFix_example: "indentCodeFix ''def f():\<newline>    pass\<newline>'' c 2
   = Inr (js_join [newline] (map (\<lambda>line. ''    '' @ line) (js_split newline c)))"
proof -
  have cond: "\<not> ((2::int) - 1 < 0 \<or> int (length [''def f():'', ''    pass'', '''']) \<le> 2 - 1)"
    by simp
  have second: "[''def f():'', ''    pass'', ''''] ! nat (2 - 1) = ''    pass''"
    by simp
  show ?thesis
    unfolding indentCodeFix_def Let_def example_contents
    by (simp only: cond second indentation_of_second_line if_False)
qed

lemma example_indent:
  assumes "trim c = ''pass''"
  shows "\<exists>ic. indentCodeFix ''def f():\<newline>    pass\<newline>'' c 2 = Inr ic \<and> trim ic = ''pass''"
proof -
  from trimmed_pass [OF assms] have "newline \<notin> set (trim c)" "trim c \<noteq> []"
    by simp_all
  from trim_indented [OF four_spaces_white this] assms
  have "trim (js_join [newline] (map (\<lambda>line. ''    '' @ line) (js_split newline c))) = ''pass''"
    by (simp only:)
  then show ?thesis
    by (simp only: indentCodeFix_example) simp
qed

lemma example_existing: "trim (existingText ''def f():\<newline>    pass\<newline>'' 2 2) = ''pass''"
  by (simp add: existingText_def js_slice_def trim_def isWhiteSpace_def newline_def)

lemma isCodeSuggestionNew_iff:
  "isCodeSuggestionNew contents fix \<longleftrightarrow>
     trim (existingText contents (line_start fix) (line_end fix)) \<noteq> trim (correction fix)"
  by (simp add: isCodeSuggestionNew_def existingText_def Let_def)

text \<open>
  Claim C7. Let the model have answered with a function call whose arguments parse, for
  a file whose contents are not null. If the code of the call, indented and trimmed,
  equals the trimmed text of the lines \<open>lineStart\<close> to \<open>lineEnd\<close> of the contents, then
  \<^verbatim>\<open>generateInlineComments\<close> returns null. For the contents \<^verbatim>\<open>"def f():\n    pass\n"\<close>
  and a replacement of lines 2 to 2 by any code that is \<^verbatim>\<open>"pass"\<close> after trimming, it
  returns null.
\<close>

theorem generateInlineComments_discards_redundant_fix:
  assumes "getInlineFixPrompt S (current_contents prFile) suggestion = Inr messages"
    and "generateChatCompletion S messages (Some (INLINE_FIX_FUNCTION S)) = Inr reply"
    and "function_call reply = Some arguments"
    and "parseArguments S arguments = Inr args"
    and "current_contents prFile = Some contents"
  shows "(\<forall>indentedCode.
            indentCodeFix contents (argCode args) (argLineStart args) = Inr indentedCode
            \<and> trim indentedCode = trim (existingText contents (argLineStart args) (argLineEnd args))
            \<longrightarrow> generateInlineComments S suggestion prFile = Inr None)
       \<and> (contents = ''def f():\<newline>    pass\<newline>'' \<and> argLineStart args = 2 \<and> argLineEnd args = 2
            \<and> trim (argCode args) = ''pass''
            \<longrightarrow> generateInlineComments S suggestion prFile = Inr None)"
proof -
  have general: "generateInlineComments S suggestion prFile = Inr None"
    if "indentCodeFix contents (argCode args) (argLineStart args) = Inr indentedCode"
      and "trim indentedCode = trim (existingText contents (argLineStart args) (argLineEnd args))"
    for indentedCode
    using assms that
    by (simp add: generateInlineComments_def generateInlineComments_try_def isCodeSuggestionNew_iff)
  have "generateInlineComments S suggestion prFile = Inr None"
    if "contents = ''def f():\<newline>    pass\<newline>''" "argLineStart args = 2" "argLineEnd args = 2"
      "trim (argCode args) = ''pass''"
  proof -
    from example_indent [OF that(4)] obtain ic
      where "indentCodeFix ''def f():\<newline>    pass\<newline>'' (argCode args) 2 = Inr ic"
        and "trim ic = ''pass''"
      by blast
    with that show ?thesis
      using general [of ic] example_existing by simp
  qed
  with general show ?thesis
    by blast
qed

theorem generateInlineComments_discards_redundant_fix_witness:
  "generateInlineComments (exampleServices '' pass\<newline>'') exampleSuggestion pythonFile = Inr None"
proof -
  have "trim '' pass\<newline>'' = ''pass''"
    by (simp add: trim_def isWhiteSpace_def)
  with generateInlineComments_discards_redundant_fix
         [of "exampleServices '' pass\<newline>''" pythonFile exampleSuggestion
             "[\<lparr>role = ''user'', content = ''Fix it.''\<rparr>]"
             "\<lparr>messageContent = [], function_call = Some ''{}''\<rparr>" "''{}''"
             "\<lparr>argCode = '' pass\<newline>'', argLineStart = 2, argLineEnd = 2,
               argComment = ''No change.''\<rparr>"
             "''def f():\<newline>    pass\<newline>''"]
  show ?thesis
    by (simp add: exampleServices_def pythonFile_def)
qed

text \<open>
  Claim C8. \<^verbatim>\<open>generateInlineComments\<close> always returns and never throws: whatever the
  collaborators do, its result is a value, and the value is null whenever an exception
  leaves the \<^verbatim>\<open>try\<close> block. In particular it is null when the prompt builder throws,
  when the model call is rejected, when the reply has no function call, when the
  arguments do not parse, when the contents of the file are null or the first line is
  outside the file (so that indenting throws), and when the fix is not new.
\<close>

theorem generateInlineComments_never_throws:
  "(\<exists>fix. generateInlineComments S suggestion prFile = Inr fix)
   \<and> (generateInlineComments_try S suggestion prFile = Inl exc
         \<longrightarrow> generateInlineComments S suggestion prFile = Inr None)
   \<and> (getInlineFixPrompt S (current_contents prFile) suggestion = Inl exc
         \<longrightarrow> generateInlineComments S suggestion prFile = Inr None)
   \<and> (getInlineFixPrompt S (current_contents prFile) suggestion = Inr messages
       \<and> generateChatCompletion S messages (Some (INLINE_FIX_FUNCTION S)) = Inl exc
         \<longrightarrow> generateInlineComments S suggestion prFile = Inr None)
   \<and> (getInlineFixPrompt S (current_contents prFile) suggestion = Inr messages
       \<and> generateChatCompletion S messages (Some (INLINE_FIX_FUNCTION S)) = Inr reply
       \<and> function_call reply = None
         \<longrightarrow> generateInlineComments S suggestion prFile = Inr None)
   \<and> (getInlineFixPrompt S (current_contents prFile) suggestion = Inr messages
       \<and> generateChatCompletion S messages (Some (INLINE_FIX_FUNCTION S)) = Inr reply
       \<and> function_call reply = Some arguments
       \<and> parseArguments S arguments = Inl exc
         \<longrightarrow> generateInlineComments S suggestion prFile = Inr None)
   \<and> (getInlineFixPrompt S (current_contents prFile) suggestion = Inr messages
       \<and> generateChatCompletion S messages (Some (INLINE_FIX_FUNCTION S)) = Inr reply
       \<and> function_call reply = Some arguments
       \<and> parseArguments S arguments = Inr args
       \<and> current_contents prFile = None
         \<longrightarrow> generateInlineComments S suggestion prFile = Inr None)
   \<and> (getInlineFixPrompt S (current_contents prFile) suggestion = Inr messages
       \<and> generateChatCompletion S messages (Some (INLINE_FIX_FUNCTION S)) = Inr reply
       \<and> function_call reply = Some arguments
       \<and> parseArguments S arguments = Inr args
       \<and> current_contents prFile = Some contents
       \<and> indentCodeFix contents (argCode args) (argLineStart args) = Inl exc
         \<longrightarrow> generateInlineComments S suggestion prFile = Inr None)
   \<and> (getInlineFixPrompt S (current_contents prFile) suggestion = Inr messages
       \<and> generateChatCompletion S messages (Some (INLINE_FIX_FUNCTION S)) = Inr reply
       \<and> function_call reply = Some arguments
       \<and> parseArguments S arguments = Inr args
       \<and> current_contents prFile = Some contents
       \<and> indentCodeFix contents (argCode args) (argLineStart args) = Inr indentedCode
       \<and> \<not> isCodeSuggestionNew contents
             \<lparr>fixFile = suggestionFilename suggestion, line_start = argLineStart args,
              line_end = argLineEnd args, correction = indentedCode,
              fixComment = argComment args\<rparr>
         \<longrightarrow> generateInlineComments S suggestion prFile = Inr None)"
proof -
  have returns: "\<exists>fix. generateInlineComments S suggestion prFile = Inr fix"
    by (cases "generateInlineComments_try S suggestion prFile")
      (simp_all add: generateInlineComments_def)
  have caught: "generateInlineComments_try S suggestion prFile = Inl exc
         \<longrightarrow> generateInlineComments S suggestion prFile = Inr None"
    by (simp add: generateInlineComments_def)
  have prompt: "getInlineFixPrompt S (current_contents prFile) suggestion = Inl exc
         \<longrightarrow> generateInlineComments S suggestion prFile = Inr None"
    by (clarsimp simp: generateInlineComments_def generateInlineComments_try_def)
  have model: "getInlineFixPrompt S (current_contents prFile) suggestion = Inr messages
       \<and> generateChatCompletion S messages (Some (INLINE_FIX_FUNCTION S)) = Inl exc
         \<longrightarrow> generateInlineComments S suggestion prFile = Inr None"
    by (clarsimp simp: generateInlineComments_def generateInlineComments_try_def)
  have nocall: "getInlineFixPrompt S (current_contents prFile) suggestion = Inr messages
       \<and> generateChatCompletion S messages (Some (INLINE_FIX_FUNCTION S)) = Inr reply
       \<and> function_call reply = None
         \<longrightarrow> generateInlineComments S suggestion prFile = Inr None"
    by (clarsimp simp: generateInlineComments_def generateInlineComments_try_def)
  have parse: "getInlineFixPrompt S (current_contents prFile) suggestion = Inr messages
       \<and> generateChatCompletion S messages (Some (INLINE_FIX_FUNCTION S)) = Inr reply
       \<and> function_call reply = Some arguments
       \<and> parseArguments S arguments = Inl exc
         \<longrightarrow> generateInlineComments S suggestion prFile = Inr None"
    by (clarsimp simp: generateInlineComments_def generateInlineComments_try_def)
  have null: "getInlineFixPrompt S (current_contents prFile) suggestion = Inr messages
       \<and> generateChatCompletion S messages (Some (INLINE_FIX_FUNCTION S)) = Inr reply
       \<and> function_call reply = Some arguments
       \<and> parseArguments S arguments = Inr args
       \<and> current_contents prFile = None
         \<longrightarrow> generateInlineComments S suggestion prFile = Inr None"
    by (clarsimp simp: generateInlineComments_def generateInlineComments_try_def)
  have indent: "getInlineFixPrompt S (current_contents prFile) suggestion = Inr messages
       \<and> generateChatCompletion S messages (Some (INLINE_FIX_FUNCTION S)) = Inr reply
       \<and> function_call reply = Some arguments
       \<and> parseArguments S arguments = Inr args
       \<and> current_contents prFile = Some contents
       \<and> indentCodeFix contents (argCode args) (argLineStart args) = Inl exc
         \<longrightarrow> generateInlineComments S suggestion prFile = Inr None"
    by (clarsimp simp: generateInlineComments_def generateInlineComments_try_def)
  have redundant: "getInlineFixPrompt S (current_contents prFile) suggestion = Inr messages
       \<and> generateChatCompletion S messages (Some (INLINE_FIX_FUNCTION S)) = Inr reply
       \<and> function_call reply = Some arguments
       \<and> parseArguments S arguments = Inr args
       \<and> current_contents prFile = Some contents
       \<and> indentCodeFix contents (argCode args) (argLineStart args) = Inr indentedCode
       \<and> \<not> isCodeSuggestionNew contents
             \<lparr>fixFile = suggestionFilename suggestion, line_start = argLineStart args,
              line_end = argLineEnd args, correction = indentedCode,
              fixComment = argComment args\<rparr>
         \<longrightarrow> generateInlineComments S suggestion prFile = Inr None"
    by (clarsimp simp: generateInlineComments_def generateInlineComments_try_def)
  from returns caught prompt model nocall parse null indent redundant show ?thesis
    by (intro conjI)
qed

theorem generateInlineComments_never_throws_witness:
  "generateInlineComments_try failingServices exampleSuggestion pythonFile
     = Inl (Error ''429 Too Many Requests'')
   \<and> generateInlineComments failingServices exampleSuggestion pythonFile = Inr None"
proof -
  have thrown: "generateInlineComments_try failingServices exampleSuggestion pythonFile
     = Inl (Error ''429 Too Many Requests'')"
    by (simp add: generateInlineComments_try_def failingServices_def)
  with generateInlineComments_never_throws
         [of failingServices exampleSuggestion pythonFile "Error ''429 Too Many Requests''"]
  show ?thesis
    by blast
qed

end
